theory Spec2Isabelle
  imports Main "HOL-Library.Sublist"
begin

section \<open>Python's \<open>re\<close> module\<close>

text \<open>
  The three scripts do all their text processing with regular expressions of Python's
  \<open>re\<close> module. The patterns are embedded as values of the datatype \<open>rx\<close> and run by
  a backtracking matcher that tries the alternatives in the order of Python's engine:
  a greedy repetition tries one more iteration before it tries the rest of the pattern,
  a lazy repetition tries the rest of the pattern first.

  Python strings are sequences of code points. The model uses \<^typ>\<open>char\<close>, that is
  the code points 0 to 255, and classifies them as \<open>\s\<close> and \<open>\w\<close> do on \<open>str\<close>
  patterns.
\<close>

definition is_space :: "char \<Rightarrow> bool" where
  "is_space c =
     (let n = (of_char c :: nat)
      in (9 \<le> n \<and> n \<le> 13) \<or> (28 \<le> n \<and> n \<le> 32) \<or> n = 133 \<or> n = 160)"

definition is_word :: "char \<Rightarrow> bool" where
  "is_word c =
     (let n = (of_char c :: nat)
      in (48 \<le> n \<and> n \<le> 57) \<or> (65 \<le> n \<and> n \<le> 90) \<or> n = 95 \<or> (97 \<le> n \<and> n \<le> 122)
         \<or> n = 170 \<or> n = 178 \<or> n = 179 \<or> n = 181 \<or> n = 185 \<or> n = 186
         \<or> (188 \<le> n \<and> n \<le> 190) \<or> (192 \<le> n \<and> n \<le> 214) \<or> (216 \<le> n \<and> n \<le> 246)
         \<or> (248 \<le> n \<and> n \<le> 255))"

text \<open>
  Character classes: \<open>\s\<close>, \<open>\S\<close>, \<open>\w\<close>, the dot without \<open>re.DOTALL\<close> (any
  character but a newline) and the dot with \<open>re.DOTALL\<close> (any character).
\<close>

datatype cls = Space | NonSpace | Word | Dot | DotAll

fun in_cls :: "cls \<Rightarrow> char \<Rightarrow> bool" where
  "in_cls Space c = is_space c"
| "in_cls NonSpace c = (\<not> is_space c)"
| "in_cls Word c = is_word c"
| "in_cls Dot c = (c \<noteq> CHR 0x0A)"
| "in_cls DotAll c = True"

text \<open>
  Patterns: a literal character, a class, the empty pattern, concatenation, greedy
  \<open>r*\<close>, lazy \<open>r*?\<close>, greedy \<open>r?\<close>, a capturing group with its number, and \<open>^\<close>
  (without \<open>re.MULTILINE\<close>: the start of the subject only).
\<close>

datatype rx = Chr char | Cls cls | Eps | Cat rx rx | Star rx | Lazy rx | Opt rx
  | Grp nat rx | Bol

type_synonym groups = "nat \<Rightarrow> string option"

text \<open>
  \<open>rmatch r n s g k\<close> matches \<open>r\<close> at the front of \<open>s\<close>, the rest of a subject of
  length \<open>n\<close>, with the groups \<open>g\<close> captured so far, and hands what is left and the
  groups to the continuation \<open>k\<close>, the rest of the pattern. \<open>None\<close> is failure, on which
  the caller backtracks. A repetition iterates again only after an iteration that
  consumed a character; every repeated pattern of the scripts consumes one.
\<close>

function rmatch ::
  "rx \<Rightarrow> nat \<Rightarrow> string \<Rightarrow> groups \<Rightarrow> (string \<Rightarrow> groups \<Rightarrow> 'a option) \<Rightarrow> 'a option" where
  "rmatch (Chr c) n s g k = (case s of [] \<Rightarrow> None | x # t \<Rightarrow> if x = c then k t g else None)"
| "rmatch (Cls C) n s g k =
     (case s of [] \<Rightarrow> None | x # t \<Rightarrow> if in_cls C x then k t g else None)"
| "rmatch Eps n s g k = k s g"
| "rmatch (Cat a b) n s g k = rmatch a n s g (\<lambda>t h. rmatch b n t h k)"
| "rmatch (Star a) n s g k =
     (case rmatch a n s g
             (\<lambda>t h. if length t < length s then rmatch (Star a) n t h k else None) of
        Some y \<Rightarrow> Some y
      | None \<Rightarrow> k s g)"
| "rmatch (Lazy a) n s g k =
     (case k s g of
        Some y \<Rightarrow> Some y
      | None \<Rightarrow>
          rmatch a n s g
            (\<lambda>t h. if length t < length s then rmatch (Lazy a) n t h k else None))"
| "rmatch (Opt a) n s g k = (case rmatch a n s g k of Some y \<Rightarrow> Some y | None \<Rightarrow> k s g)"
| "rmatch (Grp i a) n s g k =
     rmatch a n s g (\<lambda>t h. k t (h(i \<mapsto> take (length s - length t) s)))"
| "rmatch Bol n s g k = (if length s = n then k s g else None)"
  by pat_completeness auto
termination
  by (relation "measures [\<lambda>(r, n, s, g, k). size r, \<lambda>(r, n, s, g, k). length s]") auto

text \<open>\<open>r+\<close> is \<open>rr*\<close>; a sequence of patterns; a literal string.\<close>

definition Plus :: "rx \<Rightarrow> rx" where
  "Plus r = Cat r (Star r)"

fun seq :: "rx list \<Rightarrow> rx" where
  "seq [] = Eps"
| "seq (r # rs) = Cat r (seq rs)"

definition lit :: "string \<Rightarrow> rx" where
  "lit cs = seq (map Chr cs)"

text \<open>
  One attempt to match at the front of \<open>s\<close>. With \<open>adv\<close> set the attempt must not end
  in an empty match: this is how \<open>re\<close> goes on after an empty match.
\<close>

definition attempt :: "rx \<Rightarrow> nat \<Rightarrow> string \<Rightarrow> bool \<Rightarrow> (string \<times> groups) option" where
  "attempt r n s adv =
     rmatch r n s (\<lambda>_. None)
       (\<lambda>t h. if adv \<and> length t = length s then None else Some (t, h))"

text \<open>
  The leftmost match in \<open>s\<close>: where it starts, what is left after it, its groups.
\<close>

fun search :: "rx \<Rightarrow> nat \<Rightarrow> string \<Rightarrow> bool \<Rightarrow> (string \<times> string \<times> groups) option" where
  "search r n [] adv =
     (case attempt r n [] adv of Some (t, h) \<Rightarrow> Some ([], t, h) | None \<Rightarrow> None)"
| "search r n (c # s) adv =
     (case attempt r n (c # s) adv of
        Some (t, h) \<Rightarrow> Some (c # s, t, h)
      | None \<Rightarrow> search r n s False)"

text \<open>
  A match object: \<open>m_text\<close> is \<open>group(0)\<close>, \<open>m_groups\<close> the numbered groups, and
  \<open>m_pre\<close> the text between the end of the previous match and this one.
\<close>

record rematch =
  m_pre :: string
  m_text :: string
  m_groups :: groups

lemma rmatch_suffix:
  "rmatch r n s g k = Some y \<Longrightarrow> \<exists>t h. suffix t s \<and> k t h = Some y"
proof (induction r n s g k arbitrary: y rule: rmatch.induct)
  case (1 c n s g k)
  then show ?case
    by (auto split: list.splits if_splits intro: suffix_ConsI)
next
  case (2 C n s g k)
  then show ?case
    by (auto split: list.splits if_splits intro: suffix_ConsI)
next
  case (3 n s g k)
  then show ?case by auto
next
  case (4 a b n s g k)
  from 4(3) have "rmatch a n s g (\<lambda>t h. rmatch b n t h k) = Some y" by simp
  from 4(2)[OF this] obtain t h where t: "suffix t s" "rmatch b n t h k = Some y" by blast
  from 4(1)[OF t(2)] obtain t' h' where "suffix t' t" "k t' h' = Some y" by blast
  with t(1) show ?case by (blast intro: suffix_order.trans)
next
  case (5 a n s g k)
  let ?k = "\<lambda>t h. if length t < length s then rmatch (Star a) n t h k else None"
  show ?case
  proof (cases "rmatch a n s g ?k")
    case None
    with 5(3) show ?thesis by auto
  next
    case (Some z)
    with 5(3) have z: "z = y" by simp
    from 5(2)[OF Some] obtain t h where t: "suffix t s" "?k t h = Some z" by blast
    then have lt: "length t < length s" and r: "rmatch (Star a) n t h k = Some y"
      using z by (auto split: if_splits)
    from 5(1)[OF lt r] obtain t' h' where "suffix t' t" "k t' h' = Some y" by blast
    with t(1) show ?thesis by (blast intro: suffix_order.trans)
  qed
next
  case (6 a n s g k)
  let ?k = "\<lambda>t h. if length t < length s then rmatch (Lazy a) n t h k else None"
  show ?case
  proof (cases "k s g")
    case (Some z)
    with 6(3) show ?thesis by auto
  next
    case None
    with 6(3) have m: "rmatch a n s g ?k = Some y" by simp
    from 6(2)[OF None m] obtain t h where t: "suffix t s" "?k t h = Some y" by blast
    then have lt: "length t < length s" and r: "rmatch (Lazy a) n t h k = Some y"
      by (auto split: if_splits)
    from 6(1)[OF None lt r] obtain t' h' where "suffix t' t" "k t' h' = Some y" by blast
    with t(1) show ?thesis by (blast intro: suffix_order.trans)
  qed
next
  case (7 a n s g k)
  show ?case
  proof (cases "rmatch a n s g k")
    case None
    with 7(2) show ?thesis by auto
  next
    case (Some z)
    with 7(2) have "rmatch a n s g k = Some y" by simp
    from 7(1)[OF this] show ?thesis .
  qed
next
  case (8 i a n s g k)
  from 8(2) have "rmatch a n s g (\<lambda>t h. k t (h(i \<mapsto> take (length s - length t) s))) = Some y"
    by simp
  from 8(1)[OF this] show ?case by blast
next
  case (9 n s g k)
  then show ?case by (auto split: if_splits)
qed

lemma attempt_suffix:
  assumes "attempt r n s adv = Some (t, h)"
  shows "suffix t s" and "adv \<Longrightarrow> length t < length s"
proof -
  from rmatch_suffix[OF assms[unfolded attempt_def]]
  obtain t' h' where t': "suffix t' s"
    and k: "(if adv \<and> length t' = length s then None else Some (t', h')) = Some (t, h)"
    by blast
  from k have eq: "t' = t" and na: "\<not> (adv \<and> length t' = length s)"
    by (auto split: if_splits)
  from t' eq show "suffix t s" by simp
  assume adv
  with na eq have "length t \<noteq> length s" by simp
  moreover from t' eq have "length t \<le> length s" by (simp add: suffix_length_le)
  ultimately show "length t < length s" by simp
qed

lemma search_suffix:
  assumes "search r n s adv = Some (s1, s2, h)"
  shows "suffix s1 s" and "suffix s2 s1" and "adv \<Longrightarrow> length s2 < length s"
  using assms
proof (induction s arbitrary: adv)
  case Nil
  { case 1 then show ?case by (auto split: option.splits)
  next
    case 2 then show ?case by (auto split: option.splits dest: attempt_suffix(1))
  next
    case 3 then show ?case by (auto split: option.splits dest: attempt_suffix(2)) }
next
  case (Cons c s)
  { case 1
    then show ?case
      by (auto split: option.splits dest: Cons.IH(1) intro: suffix_ConsI)
  next
    case 2
    then show ?case
      by (auto split: option.splits dest: Cons.IH(2) attempt_suffix(1))
  next
    case 3
    show ?case
    proof (cases "attempt r n (c # s) adv")
      case None
      with 3 have s: "search r n s False = Some (s1, s2, h)" by simp
      from Cons.IH(1)[OF s] Cons.IH(2)[OF s]
      have "length s2 \<le> length s"
        by (meson suffix_length_le le_trans)
      then show ?thesis by simp
    next
      case (Some p)
      with 3 show ?thesis by (auto dest: attempt_suffix(2))
    qed }
qed

text \<open>
  All matches of \<open>r\<close> in \<open>s\<close> from left to right, as \<open>re.sub\<close>, \<open>re.findall\<close> and
  \<open>re.finditer\<close> find them: each search starts where the previous match ended, and
  after an empty match the next one must not be empty at the same place. The second
  component is the text after the last match.
\<close>

function scan :: "rx \<Rightarrow> nat \<Rightarrow> string \<Rightarrow> bool \<Rightarrow> rematch list \<times> string" where
  "scan r n s adv =
     (case search r n s adv of
        None \<Rightarrow> ([], s)
      | Some (s1, s2, h) \<Rightarrow>
          (let (ms, rest) = scan r n s2 (length s2 = length s1)
           in (\<lparr>m_pre = take (length s - length s1) s,
                 m_text = take (length s1 - length s2) s1,
                 m_groups = h\<rparr> # ms, rest)))"
  by pat_completeness auto
termination
proof (relation "measures [\<lambda>(r, n, s, adv). length s, \<lambda>(r, n, s, adv). if adv then 0 else 1]",
    goal_cases)
  case 1
  then show ?case by simp
next
  case (2 r n s adv x2 s1 y s2 h)
  then have s: "search r n s adv = Some (s1, s2, h)" by simp
  from search_suffix(1,2)[OF s] have le: "length s2 \<le> length s1" "length s1 \<le> length s"
    by (simp_all add: suffix_length_le)
  show ?case
  proof (cases adv)
    case True
    with search_suffix(3)[OF s] show ?thesis by simp
  next
    case False
    with le show ?thesis by auto
  qed
qed

definition finditer :: "rx \<Rightarrow> string \<Rightarrow> rematch list \<times> string" where
  "finditer r s = scan r (length s) s False"

text \<open>\<open>re.search(r, s)\<close>: the first match, or \<open>None\<close>.\<close>

definition re_search :: "rx \<Rightarrow> string \<Rightarrow> rematch option" where
  "re_search r s =
     (case search r (length s) s False of
        None \<Rightarrow> None
      | Some (s1, s2, h) \<Rightarrow>
          Some \<lparr>m_pre = take (length s - length s1) s,
                m_text = take (length s1 - length s2) s1,
                m_groups = h\<rparr>)"

text \<open>
  \<open>re.sub(r, f, s)\<close> with a function \<open>f\<close>: every match is replaced by what \<open>f\<close>
  returns for it. \<open>re_sub_st\<close> is the same with a function that also updates a variable
  of the enclosing scope (\<open>nonlocal\<close>), which is passed through the calls in the order
  of the matches.
\<close>

definition re_sub :: "rx \<Rightarrow> (rematch \<Rightarrow> string) \<Rightarrow> string \<Rightarrow> string" where
  "re_sub r f s =
     (let (ms, rest) = finditer r s in concat (map (\<lambda>m. m_pre m @ f m) ms) @ rest)"

fun sub_loop ::
  "(rematch \<Rightarrow> 'st \<Rightarrow> string \<times> 'st) \<Rightarrow> rematch list \<Rightarrow> string \<Rightarrow> 'st \<Rightarrow> string \<times> 'st" where
  "sub_loop f [] rest st = (rest, st)"
| "sub_loop f (m # ms) rest st =
     (let (rep, st1) = f m st;
          (out, st2) = sub_loop f ms rest st1
      in (m_pre m @ rep @ out, st2))"

definition re_sub_st ::
  "rx \<Rightarrow> (rematch \<Rightarrow> 'st \<Rightarrow> string \<times> 'st) \<Rightarrow> string \<Rightarrow> 'st \<Rightarrow> string \<times> 'st" where
  "re_sub_st r f s st = (let (ms, rest) = finditer r s in sub_loop f ms rest st)"

text \<open>
  \<open>m.group(i)\<close> where the code uses it as a string; \<open>re.findall\<close> for a pattern with
  one group, which lists \<open>group(1)\<close> of every match.
\<close>

definition group_str :: "rematch \<Rightarrow> nat \<Rightarrow> string" where
  "group_str m i = (case m_groups m i of Some x \<Rightarrow> x | None \<Rightarrow> [])"

definition re_findall :: "rx \<Rightarrow> string \<Rightarrow> string list" where
  "re_findall r s = map (\<lambda>m. group_str m 1) (fst (finditer r s))"

text \<open>\<open>sep.join(xs)\<close>.\<close>

fun str_join :: "string \<Rightarrow> string list \<Rightarrow> string" where
  "str_join sep [] = []"
| "str_join sep [x] = x"
| "str_join sep (x # y # ys) = x @ sep @ str_join sep (y # ys)"


section \<open>\<open>os.path\<close>\<close>

text \<open>
  \<open>os.path.basename\<close>, \<open>os.path.splitext\<close> and \<open>os.path.join\<close> on POSIX paths. The
  extension starts at the last dot of the last component, unless only dots come before
  it there.
\<close>

definition basename :: "string \<Rightarrow> string" where
  "basename p = rev (takeWhile (\<lambda>c. c \<noteq> CHR ''/'') (rev p))"

definition splitext :: "string \<Rightarrow> string \<times> string" where
  "splitext p =
     (let ext = rev (takeWhile (\<lambda>c. c \<noteq> CHR ''.'') (rev (basename p)));
          stem = take (length (basename p) - length ext - 1) (basename p)
      in if CHR ''.'' \<in> set (basename p) \<and> (\<exists>c \<in> set stem. c \<noteq> CHR ''.'')
         then (take (length p - length ext - 1) p, drop (length p - length ext - 1) p)
         else (p, []))"

definition path_join :: "string \<Rightarrow> string \<Rightarrow> string" where
  "path_join a b =
     (if prefix ''/'' b then b
      else if a = [] \<or> suffix ''/'' a then a @ b
      else a @ ''/'' @ b)"

section \<open>The text transforms\<close>

text \<open>
  A group that took no part in a match is \<open>None\<close>; \<open>truthy\<close> is Python's test
  \<open>if x:\<close> on such a value and \<open>fmt\<close> its rendering in an f-string.
\<close>

definition truthy :: "string option \<Rightarrow> bool" where
  "truthy x = (case x of None \<Rightarrow> False | Some v \<Rightarrow> v \<noteq> [])"

definition fmt :: "string option \<Rightarrow> string" where
  "fmt x = (case x of None \<Rightarrow> ''None'' | Some v \<Rightarrow> v)"

subsection \<open>Tags\<close>

text \<open>
  \<open>tags:\s*(-\s+\w+\s*)+\<close>, whose group \<open>(-\s+\w+\s*)\<close> has a name here, and
  \<open>-\s+(\S+)\<close>.
\<close>

definition tag_item_pattern :: rx where
  "tag_item_pattern =
     Grp 1 (seq [Chr CHR ''-'', Plus (Cls Space), Plus (Cls Word), Star (Cls Space)])"

definition tags_block_pattern :: rx where
  "tags_block_pattern = seq [lit ''tags:'', Star (Cls Space), Plus tag_item_pattern]"

definition tag_pattern :: rx where
  "tag_pattern = seq [Chr CHR ''-'', Plus (Cls Space), Grp 1 (Plus (Cls NonSpace))]"

text \<open>
  \<open>extract_and_convert_tags\<close> of \<open>Obsidian-To-Roam/obsidian-to-roam.py\<close> and of
  \<open>obsidian-to-org.py\<close>, which are the same. The callback assigns the \<open>nonlocal\<close>
  variable \<open>tags\<close>, whose value comes first in and comes back out.
\<close>

definition transform_tags_block :: "rematch \<Rightarrow> string \<Rightarrow> string \<times> string" where
  "transform_tags_block m tags =
     (let tags_block = m_text m;
          tag_list = re_findall tag_pattern tags_block
      in ([], '':'' @ str_join '':'' tag_list @ '':''))"

definition extract_and_convert_tags :: "string \<Rightarrow> string \<times> string" where
  "extract_and_convert_tags content = re_sub_st tags_block_pattern transform_tags_block content []"

text \<open>\<open>extract_and_convert_tags\<close> of \<open>Obsidian-To-Org/obsidian-to-org.py\<close>.\<close>

definition transform_tags_block_org :: "rematch \<Rightarrow> string \<Rightarrow> string \<times> string" where
  "transform_tags_block_org m filetags =
     (let tags_block = m_text m;
          tag_list = re_findall tag_pattern tags_block
      in ([], ''#+FILETAGS: '' @ str_join '' '' (map (\<lambda>tag. '':'' @ tag @ '':'') tag_list)))"

definition extract_and_convert_tags_org :: "string \<Rightarrow> string \<times> string" where
  "extract_and_convert_tags_org content =
     re_sub_st tags_block_pattern transform_tags_block_org content []"

subsection \<open>Front matter\<close>

text \<open>\<open>^---\n.*?\n---\n\<close> with \<open>re.DOTALL\<close>; the function is the same in the three scripts.\<close>

definition md_header_pattern :: rx where
  "md_header_pattern =
     seq [Bol, lit ''---\<newline>'', Lazy (Cls DotAll), lit ''\<newline>---\<newline>'']"

definition remove_md_header :: "string \<Rightarrow> string" where
  "remove_md_header content = re_sub md_header_pattern (\<lambda>m. []) content"

subsection \<open>Links and images\<close>

text \<open>\<open>\[\[(.*?)(?:#(.*?))?(?:\|(.*?))?\]\]\<close> and \<open>!\[(.*?)\]\((.*?)\)\<close>.\<close>

definition link_pattern :: rx where
  "link_pattern =
     seq [lit ''[['', Grp 1 (Lazy (Cls Dot)),
          Opt (seq [Chr CHR ''#'', Grp 2 (Lazy (Cls Dot))]),
          Opt (seq [Chr CHR ''|'', Grp 3 (Lazy (Cls Dot))]),
          lit '']]'']"

definition image_pattern :: rx where
  "image_pattern =
     seq [lit ''!['', Grp 1 (Lazy (Cls Dot)), lit '']('', Grp 2 (Lazy (Cls Dot)), Chr CHR '')'']"

text \<open>\<open>convert_links_and_images\<close> of \<open>Obsidian-To-Roam/obsidian-to-roam.py\<close>.\<close>

definition transform_link :: "(string \<rightharpoonup> string) \<Rightarrow> rematch \<Rightarrow> string" where
  "transform_link existing_ids m =
     (let target = m_groups m 1;
          subheading = m_groups m 2;
          alias = m_groups m 3
      in case (case target of None \<Rightarrow> None | Some t \<Rightarrow> existing_ids t) of
           Some uid \<Rightarrow>
             (let id_link = ''id:'' @ uid;
                  id_link = (if truthy subheading then id_link @ ''::'' @ fmt subheading
                             else id_link);
                  display_text = (if truthy alias then fmt alias else fmt target)
              in ''[['' @ id_link @ '']['' @ display_text @ '']]'')
         | None \<Rightarrow> m_text m)"

definition transform_image :: "rematch \<Rightarrow> string" where
  "transform_image m =
     (let alt_text = m_groups m 1;
          image_path = m_groups m 2
      in ''[[file:'' @ fmt image_path @ '']['' @ fmt alt_text @ '']]'')"

definition convert_links_and_images :: "string \<Rightarrow> (string \<rightharpoonup> string) \<Rightarrow> string" where
  "convert_links_and_images content existing_ids =
     (let content = re_sub link_pattern (transform_link existing_ids) content;
          content = re_sub image_pattern transform_image content
      in content)"

text \<open>\<open>convert_links\<close> of \<open>Obsidian-To-Org/obsidian-to-org.py\<close>.\<close>

definition transform_link_org :: "rematch \<Rightarrow> string" where
  "transform_link_org m =
     (let target = m_groups m 1;
          subheading = m_groups m 2;
          alias = m_groups m 3;
          org_link = ''[['' @ fmt target @ '']]'';
          org_link = (if truthy subheading
                      then ''[['' @ fmt target @ ''::'' @ fmt subheading @ '']]''
                      else org_link);
          org_link = (if truthy alias
                      then (if truthy subheading
                            then ''[['' @ fmt target @ ''::'' @ fmt subheading @ '']['' @ fmt alias @ '']]''
                            else ''[['' @ fmt target @ '']['' @ fmt alias @ '']]'')
                      else org_link)
      in org_link)"

definition convert_links :: "string \<Rightarrow> string" where
  "convert_links content = re_sub link_pattern transform_link_org content"

section \<open>Headers and the index of identifiers\<close>

text \<open>
  \<open>generate_org_roam_header\<close> of \<open>Obsidian-To-Roam/obsidian-to-roam.py\<close>. The result
  of \<open>uuid.uuid4()\<close> is the argument \<open>unique_id\<close>.
\<close>

definition generate_org_roam_header :: "string \<Rightarrow> string \<Rightarrow> string \<Rightarrow> string \<times> string" where
  "generate_org_roam_header file_path tags unique_id =
     (let title = fst (splitext (basename file_path));
          header = '':PROPERTIES:\<newline>:ID: '' @ unique_id @ ''\<newline>:END:\<newline>''
                   @ ''#+title: '' @ title @ ''\<newline>''
                   @ ''#+ROAM_TAGS: '' @ tags @ ''\<newline>\<newline>''
      in (header, unique_id))"

text \<open>\<open>generate_org_roam_header\<close> of \<open>obsidian-to-org.py\<close>.\<close>

definition generate_org_roam_header_inline :: "string \<Rightarrow> string \<Rightarrow> string \<Rightarrow> string" where
  "generate_org_roam_header_inline file_path tags unique_id =
     (let title = fst (splitext (basename file_path));
          tags_line = (if tags \<noteq> [] then ''#+filetags: '' @ tags else ''#+filetags:'');
          header = ''#+title: '' @ title @ ''\<newline>'' @ tags_line
                   @ ''\<newline>#+roam_aliases: \<newline>#+id: '' @ unique_id @ ''\<newline>\<newline>''
      in header)"

text \<open>
  \<open>build_existing_ids_map\<close>, with \<open>:ID:\s+(\S+)\<close>. Its argument is what \<open>os.walk\<close>
  yields below the output directory: the name and the content of every file, in the
  order of the walk. A stored identifier is only ever formatted into a link, so it is
  kept as formatted.
\<close>

definition id_pattern :: rx where
  "id_pattern = seq [lit '':ID:'', Plus (Cls Space), Grp 1 (Plus (Cls NonSpace))]"

definition index_file :: "string \<times> string \<Rightarrow> (string \<rightharpoonup> string) \<Rightarrow> (string \<rightharpoonup> string)" where
  "index_file fc existing_ids =
     (let file = fst fc; content = snd fc
      in if suffix ''.org'' file
         then (case re_search id_pattern content of
                 Some id_match \<Rightarrow>
                   (let title = fst (splitext file)
                    in existing_ids(title \<mapsto> fmt (m_groups id_match 1)))
               | None \<Rightarrow> existing_ids)
         else existing_ids)"

definition build_existing_ids_map :: "(string \<times> string) list \<Rightarrow> (string \<rightharpoonup> string)" where
  "build_existing_ids_map walk = fold index_file walk Map.empty"

section \<open>Converting a file\<close>

text \<open>
  \<open>convert_file\<close> of \<open>Obsidian-To-Roam/obsidian-to-roam.py\<close>. The state is the file
  system, a map from paths to contents, and the index \<open>existing_ids\<close>. Pandoc is the
  function \<open>pandoc\<close> from the text of the temporary file to the text it writes to the
  output file, \<open>None\<close> when it writes none. Opening a file that does not exist raises.
\<close>

datatype error = FileNotFoundError

record run_state =
  files :: "string \<rightharpoonup> string"
  existing_ids :: "string \<rightharpoonup> string"

definition convert_file ::
  "(string \<Rightarrow> string option) \<Rightarrow> string \<Rightarrow> string \<Rightarrow> string \<Rightarrow> string \<Rightarrow> run_state
     \<Rightarrow> error + run_state" where
  "convert_file pandoc uuid4 md_file out_dir relative_path st =
     (let target_dir = path_join out_dir relative_path;
          org_file = fst (splitext md_file) @ ''.org'';
          org_file = path_join target_dir (basename org_file)
      in case files st md_file of
           None \<Rightarrow> Inl FileNotFoundError
         | Some content \<Rightarrow>
             (let (content, tags) = extract_and_convert_tags content;
                  content = remove_md_header content;
                  content = convert_links_and_images content (existing_ids st);
                  temp_md_file = path_join target_dir (basename md_file);
                  fs = (files st)(temp_md_file \<mapsto> content);
                  fs = (case pandoc content of None \<Rightarrow> fs | Some out \<Rightarrow> fs(org_file \<mapsto> out));
                  fs = fs(temp_md_file := None)
              in case fs org_file of
                   None \<Rightarrow> Inl FileNotFoundError
                 | Some content \<Rightarrow>
                     (let (header, unique_id) = generate_org_roam_header org_file tags uuid4;
                          content = header @ content
                      in Inr \<lparr>files = fs(org_file \<mapsto> content),
                              existing_ids =
                                (existing_ids st)(fst (splitext (basename md_file)) \<mapsto> unique_id)\<rparr>)))"


text \<open>
  The loop of \<open>main\<close> over the Markdown files of the input directory, in the order
  of \<open>os.walk\<close>: each file with the identifier that \<open>uuid.uuid4()\<close> returns for it
  and its directory relative to the input path. An exception ends the run.
\<close>

fun convert_files ::
  "(string \<Rightarrow> string option) \<Rightarrow> string \<Rightarrow> (string \<times> string \<times> string) list \<Rightarrow> run_state
     \<Rightarrow> error + run_state" where
  "convert_files pandoc out_dir [] st = Inr st"
| "convert_files pandoc out_dir ((uuid4, md_file, relative_path) # jobs) st =
     (case convert_file pandoc uuid4 md_file out_dir relative_path st of
        Inl e \<Rightarrow> Inl e
      | Inr st' \<Rightarrow> convert_files pandoc out_dir jobs st')"


section \<open>Notions of the specification\<close>

text \<open>
  The lines of a text; whether a string occurs in a text; whether a text begins with a
  list item, a hyphen, white space and a word character after it; whether it begins
  with a tags block, \<open>tags:\<close>, optional white space and a list item; whether a tags
  block begins anywhere in it.
\<close>


fun split_lines :: "string \<Rightarrow> string list" where
  "split_lines [] = [[]]"
| "split_lines (c # s) =
     (if c = CHR ''\<newline>'' then [] # split_lines s
      else (case split_lines s of [] \<Rightarrow> [[c]] | l # ls \<Rightarrow> (c # l) # ls))"

definition occurs :: "string \<Rightarrow> string \<Rightarrow> bool" where
  "occurs p s = (\<exists>t \<in> set (suffixes s). prefix p t)"

definition item_here :: "string \<Rightarrow> bool" where
  "item_here s =
     (case s of
        [] \<Rightarrow> False
      | c # s1 \<Rightarrow>
          c = CHR ''-'' \<and>
          (case s1 of [] \<Rightarrow> False | d # s2 \<Rightarrow> is_space d) \<and>
          (case dropWhile is_space s1 of [] \<Rightarrow> False | w # s3 \<Rightarrow> is_word w))"

definition tags_block_here :: "string \<Rightarrow> bool" where
  "tags_block_here s = (prefix ''tags:'' s \<and> item_here (dropWhile is_space (drop 5 s)))"

definition has_tags_block :: "string \<Rightarrow> bool" where
  "has_tags_block s = (\<exists>t \<in> set (suffixes s). tags_block_here t)"

text \<open>
  The wiki-link with a target, an optional subheading and an optional alias; the
  characters that the parts of a link may hold so that it reads back as these parts;
  the groups of its match; the subheading as both rewriters append it, after \<open>::\<close>
  and only when it is not empty.
\<close>

definition link_text :: "string \<Rightarrow> string option \<Rightarrow> string option \<Rightarrow> string" where
  "link_text t sub alias =
     ''[['' @ t @ (case sub of None \<Rightarrow> [] | Some x \<Rightarrow> CHR ''#'' # x)
       @ (case alias of None \<Rightarrow> [] | Some x \<Rightarrow> CHR ''|'' # x) @ '']]''"

definition link_parts_ok :: "string \<Rightarrow> string option \<Rightarrow> string option \<Rightarrow> bool" where
  "link_parts_ok t sub alias =
     ((\<forall>c \<in> set t. c \<notin> {CHR ''\<newline>'', CHR ''#'', CHR ''|'', CHR '']''})
      \<and> (case sub of None \<Rightarrow> True
          | Some x \<Rightarrow> \<forall>c \<in> set x. c \<notin> {CHR ''\<newline>'', CHR ''|'', CHR '']''})
      \<and> (case alias of None \<Rightarrow> True
          | Some x \<Rightarrow> \<forall>c \<in> set x. c \<notin> {CHR ''\<newline>'', CHR '']''}))"

definition link_groups :: "string \<Rightarrow> string option \<Rightarrow> string option \<Rightarrow> groups" where
  "link_groups t sub alias = (\<lambda>i. if i = 1 then Some t else if i = 2 then sub
                                  else if i = 3 then alias else None)"

definition sub_part :: "string option \<Rightarrow> string" where
  "sub_part sub = (if truthy sub then ''::'' @ fmt sub else [])"

text \<open>
  A list item of a tags block as the white space after the hyphen, the word, and the
  white space after the word; its text, its tag and its trailing white space; whether
  its three parts are of these kinds; the text of a block with the white space after
  \<open>tags:\<close> and its items; whether the block ends before \<open>post\<close>, so that neither
  another item nor more of the last item begins there.
\<close>

type_synonym tag_item = "string \<times> string \<times> string"

definition item_text :: "tag_item \<Rightarrow> string" where
  "item_text it = (case it of (ws, w, ws') \<Rightarrow> CHR ''-'' # ws @ w @ ws')"

definition tag_of :: "tag_item \<Rightarrow> string" where
  "tag_of it = (case it of (ws, w, ws') \<Rightarrow> w)"

definition trailing :: "tag_item \<Rightarrow> string" where
  "trailing it = (case it of (ws, w, ws') \<Rightarrow> ws')"

definition item_ok :: "tag_item \<Rightarrow> bool" where
  "item_ok it =
     (case it of (ws, w, ws') \<Rightarrow>
        ws \<noteq> [] \<and> (\<forall>c \<in> set ws. is_space c) \<and> w \<noteq> [] \<and> (\<forall>c \<in> set w. is_word c)
        \<and> (\<forall>c \<in> set ws'. is_space c))"

definition block_text :: "string \<Rightarrow> tag_item list \<Rightarrow> string" where
  "block_text ws0 items = ''tags:'' @ ws0 @ concat (map item_text items)"

definition block_ends :: "tag_item list \<Rightarrow> string \<Rightarrow> bool" where
  "block_ends items post =
     (\<not> item_here post
      \<and> (items = [] \<or> post = []
          \<or> (\<not> is_space (hd post)
              \<and> (trailing (last items) = [] \<longrightarrow> \<not> is_word (hd post)))))"

text \<open>The path of the output file that \<open>convert_file\<close> writes.\<close>

definition org_file_of :: "string \<Rightarrow> string \<Rightarrow> string \<Rightarrow> string" where
  "org_file_of md_file out_dir relative_path =
     path_join (path_join out_dir relative_path) (basename (fst (splitext md_file) @ ''.org''))"

section \<open>Properties of the matcher\<close>


declare rmatch.simps(5,6) [simp del]
declare scan.simps [simp del]

lemma rmatch_fail:
  "(\<And>t h. suffix t s \<Longrightarrow> k t h = None) \<Longrightarrow> rmatch r n s g k = None"
  by (cases "rmatch r n s g k") (auto dest: rmatch_suffix)

lemma rmatch_lit:
  "rmatch (lit cs) n s g k = (if prefix cs s then k (drop (length cs) s) g else None)"
  unfolding lit_def by (induction cs arbitrary: s) (auto split: list.splits)

lemma star_cls_Nil: "rmatch (Star (Cls C)) n [] g k = k [] g"
  by (subst rmatch.simps) simp

lemma star_cls_Cons:
  "rmatch (Star (Cls C)) n (x # t) g k =
     (if in_cls C x
      then (case rmatch (Star (Cls C)) n t g k of Some y \<Rightarrow> Some y | None \<Rightarrow> k (x # t) g)
      else k (x # t) g)"
  by (subst rmatch.simps) simp

lemma star_cls_total:
  assumes "\<And>t h. k t h \<noteq> None"
  shows "rmatch (Star (Cls C)) n s g k = k (dropWhile (in_cls C) s) g"
proof (induction s)
  case Nil
  show ?case by (simp add: star_cls_Nil)
next
  case (Cons x t)
  from assms obtain y where "k (dropWhile (in_cls C) t) g = Some y" by fastforce
  with Cons show ?case by (simp add: star_cls_Cons)
qed

lemma star_cls_disjoint:
  assumes "\<And>x t. in_cls C x \<Longrightarrow> k (x # t) g = None"
  shows "rmatch (Star (Cls C)) n s g k = k (dropWhile (in_cls C) s) g"
proof (induction s)
  case Nil
  show ?case by (simp add: star_cls_Nil)
next
  case (Cons x t)
  then show ?case by (simp add: star_cls_Cons assms split: option.splits)
qed

lemma lazy_hit: "k s g = Some y \<Longrightarrow> rmatch (Lazy a) n s g k = Some y"
  by (subst rmatch.simps) simp

lemma lazy_cls_unfold:
  "rmatch (Lazy (Cls C)) n s g k =
     (case k s g of
        Some y \<Rightarrow> Some y
      | None \<Rightarrow> (case s of [] \<Rightarrow> None
                 | x # t \<Rightarrow> if in_cls C x then rmatch (Lazy (Cls C)) n t g k else None))"
  by (subst rmatch.simps) (simp split: option.splits list.splits)

lemma lazy_skip:
  assumes "\<And>c. c \<in> set u \<Longrightarrow> in_cls C c"
    and "\<And>u2. suffix u2 u \<Longrightarrow> u2 \<noteq> [] \<Longrightarrow> k (u2 @ v) g = None"
  shows "rmatch (Lazy (Cls C)) n (u @ v) g k = rmatch (Lazy (Cls C)) n v g k"
  using assms
proof (induction u)
  case Nil
  show ?case by simp
next
  case (Cons c u)
  have "k ((c # u) @ v) g = None" by (rule Cons.prems(2)) auto
  moreover have "in_cls C c" by (rule Cons.prems(1)) simp
  moreover have "rmatch (Lazy (Cls C)) n (u @ v) g k = rmatch (Lazy (Cls C)) n v g k"
    by (rule Cons.IH) (auto intro: Cons.prems suffix_ConsI)
  ultimately show ?case
    by (subst lazy_cls_unfold) simp
qed

lemma search_hit:
  "attempt r n s adv = Some (t, h) \<Longrightarrow> search r n s adv = Some (s, t, h)"
  by (cases s) auto

lemma search_None:
  "(\<And>t. suffix t s \<Longrightarrow> attempt r n t False = None) \<Longrightarrow> search r n s False = None"
proof (induction s)
  case Nil
  then show ?case by simp
next
  case (Cons c s)
  have "attempt r n (c # s) False = None" by (rule Cons.prems) simp
  moreover have "search r n s False = None"
    by (rule Cons.IH) (auto intro: Cons.prems suffix_ConsI)
  ultimately show ?case by simp
qed

lemma search_skip:
  assumes "\<And>u2. suffix u2 u \<Longrightarrow> u2 \<noteq> [] \<Longrightarrow> attempt r n (u2 @ s) False = None"
  shows "search r n (u @ s) False = search r n s False"
  using assms
proof (induction u)
  case Nil
  show ?case by simp
next
  case (Cons c u)
  have "attempt r n ((c # u) @ s) False = None" by (rule Cons.prems) auto
  moreover have "search r n (u @ s) False = search r n s False"
    by (rule Cons.IH) (auto intro: Cons.prems suffix_ConsI)
  ultimately show ?case by simp
qed

lemma scan_None: "search r n s adv = None \<Longrightarrow> scan r n s adv = ([], s)"
  by (subst scan.simps) simp

lemma scan_Some:
  "search r n s adv = Some (s1, s2, h) \<Longrightarrow>
   scan r n s adv =
     (\<lparr>m_pre = take (length s - length s1) s, m_text = take (length s1 - length s2) s1,
        m_groups = h\<rparr> # fst (scan r n s2 (length s2 = length s1)),
      snd (scan r n s2 (length s2 = length s1)))"
  by (subst scan.simps) (simp split: prod.splits)

lemma suffix_take_drop: "suffix t s \<Longrightarrow> take (length s - length t) s @ t = s"
  by (auto simp: suffix_def)

lemma scan_decomp:
  "scan r n s adv = (ms, rest) \<Longrightarrow> s = concat (map (\<lambda>m. m_pre m @ m_text m) ms) @ rest"
proof (induction r n s adv arbitrary: ms rest rule: scan.induct)
  case (1 r n s adv)
  show ?case
  proof (cases "search r n s adv")
    case None
    with 1(2) show ?thesis by (simp add: scan_None)
  next
    case (Some p)
    obtain s1 s2 h where p: "p = (s1, s2, h)" by (cases p)
    obtain ms' rest' where sc: "scan r n s2 (length s2 = length s1) = (ms', rest')"
      by (cases "scan r n s2 (length s2 = length s1)")
    from Some p have se: "search r n s adv = Some (s1, s2, h)" by simp
    from 1(1)[OF se refl refl sc] have ih: "s2 = concat (map (\<lambda>m. m_pre m @ m_text m) ms') @ rest'" .
    from 1(2) se sc have ms: "ms = \<lparr>m_pre = take (length s - length s1) s,
        m_text = take (length s1 - length s2) s1, m_groups = h\<rparr> # ms'" and r: "rest = rest'"
      by (simp_all add: scan_Some)
    from search_suffix(1,2)[OF se]
    have "take (length s - length s1) s @ s1 = s" "take (length s1 - length s2) s1 @ s2 = s1"
      by (simp_all add: suffix_take_drop)
    then have "s = take (length s - length s1) s @ take (length s1 - length s2) s1 @ s2" by simp
    with ih ms r show ?thesis by simp
  qed
qed

lemma scan_id:
  "scan r n s adv = (ms, rest) \<Longrightarrow> (\<And>m. m \<in> set ms \<Longrightarrow> f m = m_text m) \<Longrightarrow>
   concat (map (\<lambda>m. m_pre m @ f m) ms) @ rest = s"
proof -
  assume a: "scan r n s adv = (ms, rest)" and b: "\<And>m. m \<in> set ms \<Longrightarrow> f m = m_text m"
  have "concat (map (\<lambda>m. m_pre m @ f m) ms) = concat (map (\<lambda>m. m_pre m @ m_text m) ms)"
    by (rule arg_cong[where f = concat], rule map_cong[OF refl]) (simp add: b)
  with scan_decomp[OF a] show ?thesis by simp
qed

lemma re_sub_id:
  assumes "\<And>m. m \<in> set (fst (finditer r s)) \<Longrightarrow> f m = m_text m"
  shows "re_sub r f s = s"
proof -
  obtain ms rest where sc: "scan r (length s) s False = (ms, rest)"
    by (cases "scan r (length s) s False")
  have "concat (map (\<lambda>m. m_pre m @ f m) ms) @ rest = s"
    by (rule scan_id[OF sc]) (use assms sc in \<open>simp add: finditer_def\<close>)
  with sc show ?thesis by (simp add: re_sub_def finditer_def)
qed

lemma re_sub_nomatch:
  "search r (length s) s False = None \<Longrightarrow> re_sub r f s = s"
  by (simp add: re_sub_def finditer_def scan_None)

lemma re_sub_st_nomatch:
  "search r (length s) s False = None \<Longrightarrow> re_sub_st r f s st = (s, st)"
  by (simp add: re_sub_st_def finditer_def scan_None)

lemma sub_loop_last:
  assumes "\<And>m st. f m st = ([], T m)"
  shows "sub_loop f ms rest st = (concat (map m_pre ms) @ rest, if ms = [] then st else T (last ms))"
  by (induction ms arbitrary: st) (auto simp: assms)



lemma split_lines_nonempty: "split_lines s \<noteq> []"
  by (induction s) (auto split: list.splits)

lemma split_lines_append:
  "split_lines (a @ CHR ''\<newline>'' # b) = split_lines a @ split_lines b"
proof (induction a)
  case Nil
  show ?case by simp
next
  case (Cons c a)
  then show ?case
    using split_lines_nonempty[of a] by (cases "split_lines a") auto
qed

lemma dash_line_found:
  assumes "prefix ''---\<newline>'' (w @ CHR ''\<newline>'' # r)"
  shows "''---'' \<in> set (split_lines w)"
proof -
  from assms obtain zs where e: "w @ CHR ''\<newline>'' # r = ''---\<newline>'' @ zs"
    by (auto simp: prefix_def)
  then show ?thesis
    by (auto simp: append_eq_Cons_conv)
qed

lemma no_delim:
  assumes "''---'' \<notin> set (split_lines X)" "suffix u2 X" "u2 \<noteq> []"
  shows "\<not> prefix ''\<newline>---\<newline>'' (u2 @ ''\<newline>---\<newline>'' @ rest)"
proof
  assume p: "prefix ''\<newline>---\<newline>'' (u2 @ ''\<newline>---\<newline>'' @ rest)"
  from assms(3) obtain c w where u2: "u2 = c # w" by (cases u2) auto
  from p[unfolded u2] have c: "c = CHR ''\<newline>''" by simp
  from p[unfolded u2 c] have pw: "prefix ''---\<newline>'' (w @ CHR ''\<newline>'' # ''---\<newline>'' @ rest)"
    by simp
  from assms(2) u2 c obtain u1 where "X = u1 @ CHR ''\<newline>'' # w" by (auto simp: suffix_def)
  then have "split_lines X = split_lines u1 @ split_lines w" by (simp add: split_lines_append)
  moreover from dash_line_found[OF pw] have "''---'' \<in> set (split_lines w)" .
  ultimately show False using assms(1) by simp
qed

lemma header_attempt_not_start:
  "length t \<noteq> n \<Longrightarrow> attempt md_header_pattern n t adv = None"
  by (simp add: attempt_def md_header_pattern_def)

lemma header_attempt_no_prefix:
  "\<not> prefix ''---\<newline>'' t \<Longrightarrow> attempt md_header_pattern n t adv = None"
  by (simp add: attempt_def md_header_pattern_def rmatch_lit)

lemma header_search_later:
  "length t < n \<Longrightarrow> search md_header_pattern n t False = None"
  by (rule search_None) (auto dest!: suffix_length_le intro!: header_attempt_not_start)

lemma header_attempt_no_close:
  assumes "\<not> occurs ''\<newline>---\<newline>'' r"
  shows "attempt md_header_pattern n (''---\<newline>'' @ r) adv = None"
proof -
  have "rmatch (Lazy (Cls DotAll)) n r g
          (\<lambda>t h. if prefix ''\<newline>---\<newline>'' t then k t h else None) = None"
    for g and k :: "string \<Rightarrow> groups \<Rightarrow> (string \<times> groups) option"
    by (rule rmatch_fail) (use assms in \<open>auto simp: occurs_def\<close>)
  then show ?thesis
    by (simp add: attempt_def md_header_pattern_def rmatch_lit)
qed

lemma header_attempt_hit:
  assumes "''---'' \<notin> set (split_lines X)"
  shows "attempt md_header_pattern n (''---\<newline>'' @ X @ ''\<newline>---\<newline>'' @ rest) False =
    (if length (''---\<newline>'' @ X @ ''\<newline>---\<newline>'' @ rest) = n then Some (rest, \<lambda>_. None) else None)"
proof -
  let ?k = "\<lambda>t h. rmatch (lit ''\<newline>---\<newline>'') n t h (\<lambda>t h. Some (t, h))"
  have "rmatch (Lazy (Cls DotAll)) n (X @ ''\<newline>---\<newline>'' @ rest) (\<lambda>_. None) ?k
      = rmatch (Lazy (Cls DotAll)) n (''\<newline>---\<newline>'' @ rest) (\<lambda>_. None) ?k"
    by (rule lazy_skip) (use no_delim[OF assms] in \<open>auto simp: rmatch_lit\<close>)
  also have "\<dots> = Some (rest, \<lambda>_. None)"
    by (rule lazy_hit) (simp add: rmatch_lit)
  finally show ?thesis
    by (simp add: attempt_def md_header_pattern_def rmatch_lit)
qed

lemma remove_md_header_hit:
  assumes "''---'' \<notin> set (split_lines X)"
  shows "remove_md_header (''---\<newline>'' @ X @ ''\<newline>---\<newline>'' @ rest) = rest"
proof -
  let ?s = "''---\<newline>'' @ X @ ''\<newline>---\<newline>'' @ rest"
  have a: "attempt md_header_pattern (length ?s) ?s False = Some (rest, \<lambda>_. None)"
    using header_attempt_hit[OF assms, of "length ?s" rest] by simp
  have se: "search md_header_pattern (length ?s) ?s False = Some (?s, rest, \<lambda>_. None)"
    by (rule search_hit[OF a])
  have l: "search md_header_pattern (length ?s) rest False = None"
    by (rule header_search_later) simp
  have "scan md_header_pattern (length ?s) rest False = ([], rest)"
    by (rule scan_None[OF l])
  then have "scan md_header_pattern (length ?s) ?s False =
      ([\<lparr>m_pre = [], m_text = take (length ?s - length rest) ?s, m_groups = \<lambda>_. None\<rparr>], rest)"
    by (subst scan_Some[OF se]) simp
  then show ?thesis
    by (simp add: remove_md_header_def re_sub_def finditer_def)
qed

lemma header_search_miss:
  assumes "\<not> prefix ''---\<newline>'' content \<or> \<not> occurs ''\<newline>---\<newline>'' (drop 4 content)"
  shows "search md_header_pattern (length content) content False = None"
proof -
  have a: "attempt md_header_pattern (length content) content False = None"
  proof (cases "prefix ''---\<newline>'' content")
    case False
    then show ?thesis by (rule header_attempt_no_prefix)
  next
    case True
    then obtain r where r: "content = ''---\<newline>'' @ r" by (auto simp: prefix_def)
    then have "drop 4 content = r" by simp
    with assms True have "\<not> occurs ''\<newline>---\<newline>'' r" by simp
    from header_attempt_no_close[OF this] r show ?thesis by simp
  qed
  show ?thesis
  proof (cases content)
    case Nil
    with a show ?thesis by simp
  next
    case (Cons c t)
    have "search md_header_pattern (length content) t False = None"
      by (rule header_search_later) (simp add: Cons)
    with a Cons show ?thesis by simp
  qed
qed

lemma remove_md_header_miss:
  assumes "\<not> prefix ''---\<newline>'' content \<or> \<not> occurs ''\<newline>---\<newline>'' (drop 4 content)"
  shows "remove_md_header content = content"
  by (simp add: remove_md_header_def re_sub_nomatch header_search_miss[OF assms])


lemma star_cls_disjoint':
  "\<forall>x t. in_cls C x \<longrightarrow> k (x # t) g = None \<Longrightarrow>
   rmatch (Star (Cls C)) n s g k = k (dropWhile (in_cls C) s) g"
  by (rule star_cls_disjoint) simp

lemma star_cls_total':
  "\<forall>t h. k t h \<noteq> None \<Longrightarrow> rmatch (Star (Cls C)) n s g k = k (dropWhile (in_cls C) s) g"
  by (rule star_cls_total) simp

lemma star_total: "\<forall>t h. k t h \<noteq> None \<Longrightarrow> rmatch (Star a) n s g k \<noteq> None"
  by (subst rmatch.simps) (auto split: option.splits)

lemma is_space_not_word: "is_space c \<Longrightarrow> \<not> is_word c"
  by (auto simp: is_space_def is_word_def Let_def)

lemma dash_class [simp]: "\<not> is_space CHR ''-''" "\<not> is_word CHR ''-''"
  by (simp_all add: is_space_def is_word_def)

lemma in_cls_Space_eq [simp]: "in_cls Space = is_space" "in_cls Word = is_word"
  by (auto simp: fun_eq_iff)

lemma item_here_space [simp]: "is_space x \<Longrightarrow> \<not> item_here (x # t)"
  by (auto simp: item_here_def)

lemma item_miss:
  assumes "\<not> item_here u"
  shows "rmatch tag_item_pattern n u g k = None"
proof (cases u)
  case Nil
  then show ?thesis by (simp add: tag_item_pattern_def)
next
  case u: (Cons c u1)
  show ?thesis
  proof (cases u1)
    case Nil
    with u show ?thesis by (simp add: tag_item_pattern_def Plus_def)
  next
    case u1: (Cons d u2)
    show ?thesis
    proof (cases "c = CHR ''-'' \<and> is_space d")
      case False
      with u u1 show ?thesis by (auto simp: tag_item_pattern_def Plus_def)
    next
      case True
      with assms u u1 have w: "case dropWhile is_space u2 of [] \<Rightarrow> True | w # s3 \<Rightarrow> \<not> is_word w"
        by (simp add: item_here_def split: list.splits del: dropWhile_eq_Nil_conv)
      show ?thesis
      proof (cases "dropWhile is_space u2")
        case Nil
        with True u u1 show ?thesis
          by (simp add: tag_item_pattern_def Plus_def star_cls_disjoint' is_space_not_word
              del: dropWhile_eq_Nil_conv)
      next
        case (Cons w s3)
        with w have "\<not> is_word w" by simp
        with Cons True u u1 show ?thesis
          by (simp add: tag_item_pattern_def Plus_def star_cls_disjoint' is_space_not_word
              del: dropWhile_eq_Nil_conv)
      qed
    qed
  qed
qed

lemma tags_attempt_miss:
  assumes "\<not> tags_block_here t"
  shows "attempt tags_block_pattern n t adv = None"
proof (cases "prefix ''tags:'' t")
  case False
  then show ?thesis
    by (simp add: attempt_def tags_block_pattern_def rmatch_lit)
next
  case True
  then obtain r where r: "t = ''tags:'' @ r" by (auto simp: prefix_def)
  with assms have ni: "\<not> item_here (dropWhile is_space r)"
    by (simp add: tags_block_here_def)
  show ?thesis
    by (simp add: r attempt_def tags_block_pattern_def rmatch_lit Plus_def
        star_cls_disjoint' item_miss ni)
qed

lemma tags_search_miss:
  "\<not> has_tags_block s \<Longrightarrow> search tags_block_pattern n s False = None"
  by (rule search_None) (auto simp: has_tags_block_def intro: tags_attempt_miss)

lemma extract_via_finditer:
  "extract_and_convert_tags content =
     (concat (map m_pre (fst (finditer tags_block_pattern content)))
        @ snd (finditer tags_block_pattern content),
      if fst (finditer tags_block_pattern content) = [] then []
      else '':'' @ str_join '':''
             (re_findall tag_pattern (m_text (last (fst (finditer tags_block_pattern content)))))
           @ '':'')"
  unfolding extract_and_convert_tags_def re_sub_st_def
  by (cases "finditer tags_block_pattern content")
     (simp add: sub_loop_last[where f = transform_tags_block
         and T = "\<lambda>m. '':'' @ str_join '':'' (re_findall tag_pattern (m_text m)) @ '':''"]
       transform_tags_block_def)

lemma extract_org_via_finditer:
  "extract_and_convert_tags_org content =
     (concat (map m_pre (fst (finditer tags_block_pattern content)))
        @ snd (finditer tags_block_pattern content),
      if fst (finditer tags_block_pattern content) = [] then []
      else ''#+FILETAGS: '' @ str_join '' ''
             (map (\<lambda>tag. '':'' @ tag @ '':'')
                (re_findall tag_pattern (m_text (last (fst (finditer tags_block_pattern content)))))))"
  unfolding extract_and_convert_tags_org_def re_sub_st_def
  by (cases "finditer tags_block_pattern content")
     (simp add: sub_loop_last[where f = transform_tags_block_org
         and T = "\<lambda>m. ''#+FILETAGS: '' @ str_join '' ''
             (map (\<lambda>tag. '':'' @ tag @ '':'') (re_findall tag_pattern (m_text m)))"]
       transform_tags_block_org_def)

lemma finditer_decomp:
  "content = concat (map (\<lambda>m. m_pre m @ m_text m) (fst (finditer r content)))
               @ snd (finditer r content)"
  unfolding finditer_def
  by (cases "scan r (length content) content False") (auto dest: scan_decomp)




lemma link_search_miss: "\<not> occurs ''[['' s \<Longrightarrow> search link_pattern n s False = None"
  by (rule search_None) (auto simp: occurs_def attempt_def link_pattern_def rmatch_lit)

lemma image_search_miss: "\<not> occurs ''!['' s \<Longrightarrow> search image_pattern n s False = None"
  by (rule search_None) (auto simp: occurs_def attempt_def image_pattern_def rmatch_lit)




lemma opt_hit: "rmatch a n s g k = Some y \<Longrightarrow> rmatch (Opt a) n s g k = Some y"
  by simp

lemma opt_miss: "rmatch a n s g k = None \<Longrightarrow> rmatch (Opt a) n s g k = k s g"
  by simp

lemma lazy_grp_skip:
  assumes "\<forall>c\<in>set u. in_cls C c \<and> (\<forall>w h. k (c # w) h = None)"
    and "k v (g(i \<mapsto> u)) = Some y"
  shows "rmatch (Grp i (Lazy (Cls C))) n (u @ v) g k = Some y"
proof -
  let ?k = "\<lambda>t h. k t (h(i \<mapsto> take (length (u @ v) - length t) (u @ v)))"
  have "rmatch (Lazy (Cls C)) n (u @ v) g ?k = rmatch (Lazy (Cls C)) n v g ?k"
  proof (rule lazy_skip)
    fix c assume "c \<in> set u" then show "in_cls C c" using assms(1) by blast
  next
    fix u2 assume "suffix u2 u" "u2 \<noteq> []"
    then obtain c w where "u2 = c # w" "c \<in> set u"
      by (cases u2) (auto dest: set_mono_suffix)
    then show "?k (u2 @ v) g = None" using assms(1) by simp
  qed
  also have "\<dots> = Some y" by (rule lazy_hit) (simp add: assms(2))
  finally show ?thesis by simp
qed

lemma link_attempt_NN:
  assumes "link_parts_ok t None None"
  shows "attempt link_pattern n (link_text t None None @ post) False
         = Some (post, link_groups t None None)"
  using assms
  apply (simp add: attempt_def link_pattern_def lit_def link_text_def link_parts_ok_def
      del: rmatch.simps(7,8))
  apply (rule lazy_grp_skip)
   apply simp
  apply (simp add: fun_eq_iff link_groups_def)
  done

lemma link_attempt_SN:
  assumes "link_parts_ok t (Some x) None"
  shows "attempt link_pattern n (link_text t (Some x) None @ post) False
         = Some (post, link_groups t (Some x) None)"
  using assms
  apply (simp add: attempt_def link_pattern_def lit_def link_text_def link_parts_ok_def
      del: rmatch.simps(7,8))
  apply (rule lazy_grp_skip)
   apply simp
  apply (rule opt_hit)
  apply (simp del: rmatch.simps(7,8))
  apply (rule lazy_grp_skip)
   apply simp
  apply (simp add: fun_eq_iff link_groups_def)
  done

lemma link_attempt_NS:
  assumes "link_parts_ok t None (Some y)"
  shows "attempt link_pattern n (link_text t None (Some y) @ post) False
         = Some (post, link_groups t None (Some y))"
  using assms
  apply (simp add: attempt_def link_pattern_def lit_def link_text_def link_parts_ok_def
      del: rmatch.simps(7,8))
  apply (rule lazy_grp_skip)
   apply simp
  apply (simp add: opt_miss del: rmatch.simps(7,8))
  apply (rule opt_hit)
  apply (simp del: rmatch.simps(7,8))
  apply (rule lazy_grp_skip)
   apply simp
  apply (simp add: fun_eq_iff link_groups_def)
  done

lemma link_attempt_SS:
  assumes "link_parts_ok t (Some x) (Some y)"
  shows "attempt link_pattern n (link_text t (Some x) (Some y) @ post) False
         = Some (post, link_groups t (Some x) (Some y))"
  using assms
  apply (simp add: attempt_def link_pattern_def lit_def link_text_def link_parts_ok_def
      del: rmatch.simps(7,8))
  apply (rule lazy_grp_skip)
   apply simp
  apply (rule opt_hit)
  apply (simp del: rmatch.simps(7,8))
  apply (rule lazy_grp_skip)
   apply simp
  apply (rule opt_hit)
  apply (simp del: rmatch.simps(7,8))
  apply (rule lazy_grp_skip)
   apply simp
  apply (simp add: fun_eq_iff link_groups_def)
  done

lemma link_attempt:
  "link_parts_ok t sub alias \<Longrightarrow>
   attempt link_pattern n (link_text t sub alias @ post) False
     = Some (post, link_groups t sub alias)"
  by (cases "sub"; cases "alias")
     (simp_all add: link_attempt_NN link_attempt_SN link_attempt_NS link_attempt_SS)

lemma link_text_length: "length (link_text t sub alias) > 0"
  by (simp add: link_text_def)

lemma link_search:
  assumes "link_parts_ok t sub alias" "CHR ''['' \<notin> set pre"
  shows "search link_pattern n (pre @ link_text t sub alias @ post) False
         = Some (link_text t sub alias @ post, post, link_groups t sub alias)"
proof -
  have "search link_pattern n (pre @ link_text t sub alias @ post) False
        = search link_pattern n (link_text t sub alias @ post) False"
  proof (rule search_skip)
    fix u2 assume "suffix u2 pre" "u2 \<noteq> []"
    then obtain c w where "u2 = c # w" "c \<in> set pre"
      by (cases u2) (auto dest: set_mono_suffix)
    with assms(2) have "c \<noteq> CHR ''[''" by auto
    with \<open>u2 = c # w\<close>
    show "attempt link_pattern n (u2 @ link_text t sub alias @ post) False = None"
      by (simp add: attempt_def link_pattern_def lit_def)
  qed
  also have "\<dots> = Some (link_text t sub alias @ post, post, link_groups t sub alias)"
    by (rule search_hit) (rule link_attempt[OF assms(1)])
  finally show ?thesis .
qed

lemma link_finditer:
  assumes "link_parts_ok t sub alias" "CHR ''['' \<notin> set pre" "\<not> occurs ''[['' post"
  shows "finditer link_pattern (pre @ link_text t sub alias @ post)
         = ([\<lparr>m_pre = pre, m_text = link_text t sub alias,
               m_groups = link_groups t sub alias\<rparr>], post)"
proof -
  let ?s = "pre @ link_text t sub alias @ post"
  have "scan link_pattern (length ?s) post False = ([], post)"
    by (rule scan_None) (rule link_search_miss[OF assms(3)])
  moreover have "length post \<noteq> length (link_text t sub alias @ post)"
    using link_text_length[of t sub "alias"] by simp
  ultimately show ?thesis
    unfolding finditer_def
    by (subst scan_Some[OF link_search[OF assms(1,2)]]) simp
qed

lemma not_occurs_char: "c \<notin> set s \<Longrightarrow> \<not> occurs (c # p) s"
  by (auto simp: occurs_def prefix_def suffix_def)

lemma truthy_Some [simp]: "truthy (Some x) = (x \<noteq> [])" "truthy None = False"
  by (simp_all add: truthy_def)

lemma fmt_Some [simp]: "fmt (Some x) = x"
  by (simp add: fmt_def)

lemma transform_link_resolved:
  "m_groups m 1 = Some t \<Longrightarrow> ids t = Some u \<Longrightarrow>
   transform_link ids m =
     ''[[id:'' @ u @ sub_part (m_groups m 2) @ '']['' @
       (if truthy (m_groups m 3) then fmt (m_groups m 3) else t) @ '']]''"
  by (simp add: transform_link_def sub_part_def)

lemma link_groups_simps [simp]:
  "link_groups t sub alias (Suc 0) = Some t"
  "link_groups t sub alias 2 = sub"
  "link_groups t sub alias 3 = alias"
  by (simp_all add: link_groups_def)

lemma re_sub_link:
  assumes "link_parts_ok t sub alias" "CHR ''['' \<notin> set pre" "\<not> occurs ''[['' post"
  shows "re_sub link_pattern f (pre @ link_text t sub alias @ post)
         = pre @ f \<lparr>m_pre = pre, m_text = link_text t sub alias,
                     m_groups = link_groups t sub alias\<rparr> @ post"
  by (simp add: re_sub_def link_finditer[OF assms])

lemma no_image:
  "CHR ''!'' \<notin> set r \<Longrightarrow> re_sub image_pattern f r = r"
  by (rule re_sub_nomatch, rule image_search_miss, rule not_occurs_char)

lemma set_sub_part: "set (sub_part sub) \<subseteq> set (fmt sub) \<union> {CHR '':''}"
  by (auto simp: sub_part_def)

lemma resolved_text:
  assumes "link_parts_ok t sub alias" "ids t = Some u"
    "CHR ''['' \<notin> set pre" "\<not> occurs ''[['' post"
    "CHR ''!'' \<notin> set (pre @ t @ fmt sub @ fmt alias @ u @ post)"
  shows "convert_links_and_images (pre @ link_text t sub alias @ post) ids =
         pre @ ''[[id:'' @ u @ sub_part sub @ '']['' @
           (if truthy alias then fmt alias else t) @ '']]'' @ post"
proof -
  let ?m = "\<lparr>m_pre = pre, m_text = link_text t sub alias,
              m_groups = link_groups t sub alias\<rparr>"
  let ?r = "pre @ ''[[id:'' @ u @ sub_part sub @ '']['' @
           (if truthy alias then fmt alias else t) @ '']]'' @ post"
  have "transform_link ids ?m = ''[[id:'' @ u @ sub_part sub @ '']['' @
           (if truthy alias then fmt alias else t) @ '']]''"
    using transform_link_resolved[of ?m t ids u] assms(2) by simp
  then have l: "re_sub link_pattern (transform_link ids) (pre @ link_text t sub alias @ post) = ?r"
    by (simp add: re_sub_link[OF assms(1,3,4)])
  have "CHR ''!'' \<notin> set (sub_part sub)"
    using assms(5) set_sub_part[of sub] by auto
  with assms(5) have "CHR ''!'' \<notin> set ?r" by simp
  then have "re_sub image_pattern transform_image ?r = ?r"
    by (rule no_image)
  with l show ?thesis
    by (simp add: convert_links_and_images_def)
qed

lemma transform_link_org_alias:
  "m_groups m 1 = Some t \<Longrightarrow> m_groups m 3 = Some a \<Longrightarrow> a \<noteq> [] \<Longrightarrow>
   transform_link_org m = ''[['' @ t @ sub_part (m_groups m 2) @ '']['' @ a @ '']]''"
  by (simp add: transform_link_org_def sub_part_def)

lemma transform_link_unresolved:
  "m_groups m 1 = Some t \<Longrightarrow> ids t = None \<Longrightarrow> transform_link ids m = m_text m"
  by (simp add: transform_link_def)

lemma plain_text:
  assumes "link_parts_ok t sub (Some a)" "a \<noteq> []"
    "CHR ''['' \<notin> set pre" "\<not> occurs ''[['' post"
  shows "convert_links (pre @ link_text t sub (Some a) @ post) =
         pre @ ''[['' @ t @ sub_part sub @ '']['' @ a @ '']]'' @ post"
  using transform_link_org_alias[of "\<lparr>m_pre = pre, m_text = link_text t sub (Some a),
              m_groups = link_groups t sub (Some a)\<rparr>" t a] assms(2)
  by (simp add: convert_links_def re_sub_link[OF assms(1,3,4)])

lemma unresolved_text:
  assumes "link_parts_ok t sub alias" "ids t = None"
    "CHR ''['' \<notin> set pre" "\<not> occurs ''[['' post"
    "CHR ''!'' \<notin> set (pre @ t @ fmt sub @ fmt alias @ post)"
  shows "convert_links_and_images (pre @ link_text t sub alias @ post) ids =
         pre @ link_text t sub alias @ post"
proof -
  let ?m = "\<lparr>m_pre = pre, m_text = link_text t sub alias,
              m_groups = link_groups t sub alias\<rparr>"
  let ?r = "pre @ link_text t sub alias @ post"
  have "transform_link ids ?m = link_text t sub alias"
    using transform_link_unresolved[of ?m t ids] assms(2) by simp
  then have l: "re_sub link_pattern (transform_link ids) ?r = ?r"
    by (simp add: re_sub_link[OF assms(1,3,4)])
  have "CHR ''!'' \<notin> set (link_text t sub alias)"
    using assms(5) by (cases "sub"; cases "alias") (simp_all add: link_text_def)
  with assms(5) have "CHR ''!'' \<notin> set ?r" by simp
  then have "re_sub image_pattern transform_image ?r = ?r"
    by (rule no_image)
  with l show ?thesis
    by (simp add: convert_links_and_images_def)
qed


section \<open>Rewriting links\<close>

text \<open>
  Claim C6. A text is the matches of the link pattern, its wiki-link occurrences, with
  the text between them, and the rewrite puts what \<open>transform_link\<close> returns in the
  place of every occurrence. It replaces an occurrence whose
  target \<open>t\<close> has the identifier \<open>u\<close> in the index by a link addressed by \<open>id:u\<close>, with
  \<open>::\<close> and the subheading appended when there is a non-empty one, and displaying the
  alias when there is a non-empty one and the target otherwise. On a text, with no
  other link or image syntax around the occurrence, the occurrence is replaced so
  and the rest stays; in particular \<open>[[Note]]\<close> becomes \<open>[[id:U][Note]]\<close>.
\<close>

theorem resolved_link:
  "content = concat (map (\<lambda>m. m_pre m @ m_text m) (fst (finditer link_pattern content)))
               @ snd (finditer link_pattern content)
   \<and> re_sub link_pattern (transform_link ids) content =
       concat (map (\<lambda>m. m_pre m @ transform_link ids m) (fst (finditer link_pattern content)))
         @ snd (finditer link_pattern content)
   \<and> (m_groups m 1 = Some t \<and> ids t = Some u \<longrightarrow>
      transform_link ids m =
        ''[[id:'' @ u @ sub_part (m_groups m 2) @ '']['' @
          (if truthy (m_groups m 3) then fmt (m_groups m 3) else t) @ '']]'')
   \<and> (link_parts_ok t sub als \<and> ids t = Some u
        \<and> CHR ''['' \<notin> set pre \<and> \<not> occurs ''[['' post
        \<and> CHR ''!'' \<notin> set (pre @ t @ fmt sub @ fmt als @ u @ post) \<longrightarrow>
      convert_links_and_images (pre @ link_text t sub als @ post) ids =
        pre @ ''[[id:'' @ u @ sub_part sub @ '']['' @
          (if truthy als then fmt als else t) @ '']]'' @ post)
   \<and> (link_parts_ok t None None \<and> ids t = Some u \<and> CHR ''!'' \<notin> set (t @ u) \<longrightarrow>
      convert_links_and_images (''[['' @ t @ '']]'') ids = ''[[id:'' @ u @ '']['' @ t @ '']]'')"
proof (intro conjI impI)
  show "content = concat (map (\<lambda>m. m_pre m @ m_text m) (fst (finditer link_pattern content)))
               @ snd (finditer link_pattern content)"
    by (rule finditer_decomp)
next
  show "re_sub link_pattern (transform_link ids) content =
       concat (map (\<lambda>m. m_pre m @ transform_link ids m) (fst (finditer link_pattern content)))
         @ snd (finditer link_pattern content)"
    by (simp add: re_sub_def split: prod.splits)
next
  assume "m_groups m 1 = Some t \<and> ids t = Some u"
  then show "transform_link ids m =
        ''[[id:'' @ u @ sub_part (m_groups m 2) @ '']['' @
          (if truthy (m_groups m 3) then fmt (m_groups m 3) else t) @ '']]''"
    by (simp add: transform_link_resolved)
next
  assume "link_parts_ok t sub als \<and> ids t = Some u
        \<and> CHR ''['' \<notin> set pre \<and> \<not> occurs ''[['' post
        \<and> CHR ''!'' \<notin> set (pre @ t @ fmt sub @ fmt als @ u @ post)"
  then show "convert_links_and_images (pre @ link_text t sub als @ post) ids =
        pre @ ''[[id:'' @ u @ sub_part sub @ '']['' @
          (if truthy als then fmt als else t) @ '']]'' @ post"
    by (intro resolved_text) simp_all
next
  assume a: "link_parts_ok t None None \<and> ids t = Some u \<and> CHR ''!'' \<notin> set (t @ u)"
  have "convert_links_and_images ([] @ link_text t None None @ []) ids =
        [] @ ''[[id:'' @ u @ sub_part None @ '']['' @
          (if truthy None then fmt None else t) @ '']]'' @ []"
    by (rule resolved_text) (use a in \<open>simp_all add: occurs_def fmt_def\<close>)
  then show "convert_links_and_images (''[['' @ t @ '']]'') ids = ''[[id:'' @ u @ '']['' @ t @ '']]''"
    by (simp add: link_text_def sub_part_def)
qed

theorem resolved_link_witness:
  "m_groups \<lparr>m_pre = ''See '', m_text = ''[[Note#Intro|the note]]'',
             m_groups = link_groups ''Note'' (Some ''Intro'') (Some ''the note'')\<rparr> 1 = Some ''Note''
   \<and> [''Note'' \<mapsto> ''0b8a3c52-6f0e-4d7a-9a51-3c1d2e4f5a60''] ''Note''
       = Some ''0b8a3c52-6f0e-4d7a-9a51-3c1d2e4f5a60''
   \<and> link_parts_ok ''Note'' (Some ''Intro'') (Some ''the note'')
   \<and> link_parts_ok ''Note'' None None
   \<and> CHR ''['' \<notin> set ''See '' \<and> \<not> occurs ''[['' '' for more.''
   \<and> transform_link [''Note'' \<mapsto> ''0b8a3c52-6f0e-4d7a-9a51-3c1d2e4f5a60'']
        \<lparr>m_pre = ''See '', m_text = ''[[Note#Intro|the note]]'',
          m_groups = link_groups ''Note'' (Some ''Intro'') (Some ''the note'')\<rparr>
       = ''[[id:0b8a3c52-6f0e-4d7a-9a51-3c1d2e4f5a60::Intro][the note]]''
   \<and> convert_links_and_images ''See [[Note#Intro|the note]] for more.''
        [''Note'' \<mapsto> ''0b8a3c52-6f0e-4d7a-9a51-3c1d2e4f5a60'']
       = ''See [[id:0b8a3c52-6f0e-4d7a-9a51-3c1d2e4f5a60::Intro][the note]] for more.''
   \<and> convert_links_and_images ''[[Note]]''
        [''Note'' \<mapsto> ''0b8a3c52-6f0e-4d7a-9a51-3c1d2e4f5a60'']
       = ''[[id:0b8a3c52-6f0e-4d7a-9a51-3c1d2e4f5a60][Note]]''"
proof -
  have h1: "link_parts_ok ''Note'' (Some ''Intro'') (Some ''the note'')"
    by (simp add: link_parts_ok_def)
  have h2: "link_parts_ok ''Note'' None None"
    by (simp add: link_parts_ok_def)
  have h3: "\<not> occurs ''[['' '' for more.''"
    by (simp add: occurs_def)
  from h1 h2 h3
    resolved_link[where m = "\<lparr>m_pre = ''See '', m_text = ''[[Note#Intro|the note]]'',
             m_groups = link_groups ''Note'' (Some ''Intro'') (Some ''the note'')\<rparr>"
      and t = "''Note''" and u = "''0b8a3c52-6f0e-4d7a-9a51-3c1d2e4f5a60''"
      and ids = "[''Note'' \<mapsto> ''0b8a3c52-6f0e-4d7a-9a51-3c1d2e4f5a60'']"
      and sub = "Some ''Intro''" and als = "Some ''the note''"
      and pre = "''See ''" and post = "'' for more.''" and content = "[]"]
  show ?thesis
    by (simp add: link_text_def sub_part_def)
qed

text \<open>
  Claim C7. Both rewrites put what their function returns in the place of every
  match of the link pattern. A wiki-link occurrence with a non-empty alias, whose
  target is not in the index: the plain rewrite makes it a link addressed by the target (with \<open>::\<close> and the
  subheading when there is one) that displays the alias, so \<open>[[Note|Alias]]\<close> becomes
  \<open>[[Note][Alias]]\<close>; the identifier-resolving rewrite returns the occurrence, and
  with it the text, as it was.
\<close>

theorem unresolved_alias_link:
  "content = concat (map (\<lambda>m. m_pre m @ m_text m) (fst (finditer link_pattern content)))
               @ snd (finditer link_pattern content)
   \<and> convert_links content =
       concat (map (\<lambda>m. m_pre m @ transform_link_org m) (fst (finditer link_pattern content)))
         @ snd (finditer link_pattern content)
   \<and> re_sub link_pattern (transform_link ids) content =
       concat (map (\<lambda>m. m_pre m @ transform_link ids m) (fst (finditer link_pattern content)))
         @ snd (finditer link_pattern content)
   \<and> (m_groups m 1 = Some t \<and> m_groups m 3 = Some a \<and> a \<noteq> [] \<longrightarrow>
      transform_link_org m = ''[['' @ t @ sub_part (m_groups m 2) @ '']['' @ a @ '']]''
      \<and> (ids t = None \<longrightarrow> transform_link ids m = m_text m))
   \<and> (link_parts_ok t sub (Some a) \<and> a \<noteq> []
        \<and> CHR ''['' \<notin> set pre \<and> \<not> occurs ''[['' post \<longrightarrow>
      convert_links (pre @ link_text t sub (Some a) @ post) =
        pre @ ''[['' @ t @ sub_part sub @ '']['' @ a @ '']]'' @ post
      \<and> (ids t = None \<and> CHR ''!'' \<notin> set (pre @ t @ fmt sub @ a @ post) \<longrightarrow>
          convert_links_and_images (pre @ link_text t sub (Some a) @ post) ids =
            pre @ link_text t sub (Some a) @ post))
   \<and> (link_parts_ok t None (Some a) \<and> a \<noteq> [] \<longrightarrow>
      convert_links (''[['' @ t @ ''|'' @ a @ '']]'') = ''[['' @ t @ '']['' @ a @ '']]''
      \<and> (ids t = None \<and> CHR ''!'' \<notin> set (t @ a) \<longrightarrow>
          convert_links_and_images (''[['' @ t @ ''|'' @ a @ '']]'') ids
            = ''[['' @ t @ ''|'' @ a @ '']]''))"
proof (intro conjI impI)
  show "content = concat (map (\<lambda>m. m_pre m @ m_text m) (fst (finditer link_pattern content)))
               @ snd (finditer link_pattern content)"
    by (rule finditer_decomp)
next
  show "convert_links content =
       concat (map (\<lambda>m. m_pre m @ transform_link_org m) (fst (finditer link_pattern content)))
         @ snd (finditer link_pattern content)"
    by (simp add: convert_links_def re_sub_def split: prod.splits)
next
  show "re_sub link_pattern (transform_link ids) content =
       concat (map (\<lambda>m. m_pre m @ transform_link ids m) (fst (finditer link_pattern content)))
         @ snd (finditer link_pattern content)"
    by (simp add: re_sub_def split: prod.splits)
next
  assume "m_groups m 1 = Some t \<and> m_groups m 3 = Some a \<and> a \<noteq> []"
  then show "transform_link_org m = ''[['' @ t @ sub_part (m_groups m 2) @ '']['' @ a @ '']]''"
    by (simp add: transform_link_org_alias)
next
  assume "m_groups m 1 = Some t \<and> m_groups m 3 = Some a \<and> a \<noteq> []" "ids t = None"
  then show "transform_link ids m = m_text m"
    by (simp add: transform_link_unresolved)
next
  assume "link_parts_ok t sub (Some a) \<and> a \<noteq> []
        \<and> CHR ''['' \<notin> set pre \<and> \<not> occurs ''[['' post"
  then show "convert_links (pre @ link_text t sub (Some a) @ post) =
        pre @ ''[['' @ t @ sub_part sub @ '']['' @ a @ '']]'' @ post"
    by (intro plain_text) simp_all
next
  assume "link_parts_ok t sub (Some a) \<and> a \<noteq> []
        \<and> CHR ''['' \<notin> set pre \<and> \<not> occurs ''[['' post"
    "ids t = None \<and> CHR ''!'' \<notin> set (pre @ t @ fmt sub @ a @ post)"
  then show "convert_links_and_images (pre @ link_text t sub (Some a) @ post) ids =
            pre @ link_text t sub (Some a) @ post"
    by (intro unresolved_text) simp_all
next
  assume a: "link_parts_ok t None (Some a) \<and> a \<noteq> []"
  have "convert_links ([] @ link_text t None (Some a) @ []) =
        [] @ ''[['' @ t @ sub_part None @ '']['' @ a @ '']]'' @ []"
    by (rule plain_text) (use a in \<open>simp_all add: occurs_def\<close>)
  then show "convert_links (''[['' @ t @ ''|'' @ a @ '']]'') = ''[['' @ t @ '']['' @ a @ '']]''"
    by (simp add: link_text_def sub_part_def)
next
  assume a: "link_parts_ok t None (Some a) \<and> a \<noteq> []"
    and b: "ids t = None \<and> CHR ''!'' \<notin> set (t @ a)"
  have "convert_links_and_images ([] @ link_text t None (Some a) @ []) ids =
        [] @ link_text t None (Some a) @ []"
    by (rule unresolved_text) (use a b in \<open>simp_all add: occurs_def fmt_def\<close>)
  then show "convert_links_and_images (''[['' @ t @ ''|'' @ a @ '']]'') ids
            = ''[['' @ t @ ''|'' @ a @ '']]''"
    by (simp add: link_text_def)
qed

theorem unresolved_alias_link_witness:
  "m_groups \<lparr>m_pre = ''See '', m_text = ''[[Note|Alias]]'',
             m_groups = link_groups ''Note'' None (Some ''Alias'')\<rparr> 1 = Some ''Note''
   \<and> link_parts_ok ''Note'' None (Some ''Alias'') \<and> ''Alias'' \<noteq> []
   \<and> CHR ''['' \<notin> set ''See '' \<and> \<not> occurs ''[['' '' for more.''
   \<and> (Map.empty :: string \<rightharpoonup> string) ''Note'' = None
   \<and> transform_link_org \<lparr>m_pre = ''See '', m_text = ''[[Note|Alias]]'',
             m_groups = link_groups ''Note'' None (Some ''Alias'')\<rparr> = ''[[Note][Alias]]''
   \<and> transform_link Map.empty \<lparr>m_pre = ''See '', m_text = ''[[Note|Alias]]'',
             m_groups = link_groups ''Note'' None (Some ''Alias'')\<rparr> = ''[[Note|Alias]]''
   \<and> convert_links ''See [[Note|Alias]] for more.'' = ''See [[Note][Alias]] for more.''
   \<and> convert_links_and_images ''See [[Note|Alias]] for more.'' Map.empty
       = ''See [[Note|Alias]] for more.''
   \<and> convert_links ''[[Note|Alias]]'' = ''[[Note][Alias]]''
   \<and> convert_links_and_images ''[[Note|Alias]]'' Map.empty = ''[[Note|Alias]]''"
proof -
  have h1: "link_parts_ok ''Note'' None (Some ''Alias'')"
    by (simp add: link_parts_ok_def)
  have h2: "\<not> occurs ''[['' '' for more.''"
    by (simp add: occurs_def)
  from h1 h2
    unresolved_alias_link[where m = "\<lparr>m_pre = ''See '', m_text = ''[[Note|Alias]]'',
             m_groups = link_groups ''Note'' None (Some ''Alias'')\<rparr>"
      and t = "''Note''" and a = "''Alias''" and ids = "Map.empty"
      and sub = "None" and pre = "''See ''" and post = "'' for more.''"
      and content = "[]"]
  show ?thesis
    by (simp add: link_text_def sub_part_def fmt_def)
qed



lemma space_chars [simp]: "is_space CHR '' ''" "is_space CHR ''\<newline>''"
  by (simp_all add: is_space_def)

lemma dropWhile_stop:
  "\<forall>c\<in>set u. P c \<Longrightarrow> r = [] \<or> \<not> P (hd r) \<Longrightarrow> dropWhile P (u @ r) = r"
  by (cases r) (simp_all add: dropWhile_append2)

lemma star_cls_hit:
  "k (dropWhile (in_cls C) s) g = Some y \<Longrightarrow> rmatch (Star (Cls C)) n s g k = Some y"
  by (induction s) (auto simp: star_cls_Nil star_cls_Cons split: if_splits)

lemma id_attempt_miss: "\<not> prefix '':ID:'' t \<Longrightarrow> attempt id_pattern n t adv = None"
  by (simp add: attempt_def id_pattern_def rmatch_lit)

lemma id_attempt:
  assumes "uid \<noteq> []" "\<forall>c\<in>set uid. \<not> is_space c" "r = [] \<or> is_space (hd r)"
  shows "attempt id_pattern n ('':ID: '' @ uid @ r) False = Some (r, [1 \<mapsto> uid])"
proof -
  obtain c u where uid: "uid = c # u" using assms(1) by (cases uid) auto
  have ns: "\<not> is_space c" "\<forall>x\<in>set u. in_cls NonSpace x" using assms(2) uid by auto
  have d: "dropWhile (in_cls NonSpace) (u @ r) = r"
    by (rule dropWhile_stop) (use ns assms(3) in auto)
  show ?thesis
    by (simp add: attempt_def id_pattern_def lit_def Plus_def uid star_cls_disjoint'
        star_cls_total' d ns)
qed

lemma id_search_header:
  assumes "uid \<noteq> []" "\<forall>c\<in>set uid. \<not> is_space c"
  shows "search id_pattern n ('':PROPERTIES:\<newline>:ID: '' @ uid @ ''\<newline>'' @ r) False
         = Some ('':ID: '' @ uid @ ''\<newline>'' @ r, ''\<newline>'' @ r, [1 \<mapsto> uid])"
  using id_attempt[OF assms, of "''\<newline>'' @ r" n]
  by (simp add: id_attempt_miss)

lemma index_file_header:
  assumes "uid \<noteq> []" "\<forall>c\<in>set uid. \<not> is_space c" "suffix ''.org'' file"
  shows "index_file (file, fst (generate_org_roam_header file_path tags uid) @ body) ids
         = ids(fst (splitext file) \<mapsto> uid)"
  using id_search_header[OF assms(1,2), of "length (fst (generate_org_roam_header file_path tags uid) @ body)"
      "'':END:\<newline>#+title: '' @ fst (splitext (basename file_path)) @ ''\<newline>#+ROAM_TAGS: '' @ tags @ ''\<newline>\<newline>'' @ body"]
    assms(3)
  by (simp add: index_file_def generate_org_roam_header_def re_search_def fmt_def)

lemma index_file_other: "fst (splitext (fst fc)) \<noteq> t \<Longrightarrow> index_file fc ids t = ids t"
  by (simp add: index_file_def Let_def split: option.splits)

lemma fold_index_other:
  "\<forall>fc\<in>set walk. fst (splitext (fst fc)) \<noteq> t \<Longrightarrow> fold index_file walk ids t = ids t"
  by (induction walk arbitrary: ids) (simp_all add: index_file_other)

lemma takeWhile_none: "c \<notin> set xs \<Longrightarrow> takeWhile (\<lambda>x. x \<noteq> c) xs = xs"
  by (induction xs) auto

lemma takeWhile_upto: "c \<notin> set xs \<Longrightarrow> takeWhile (\<lambda>x. x \<noteq> c) (xs @ c # ys) = xs"
  by (induction xs) auto

lemma basename_no_sep: "CHR ''/'' \<notin> set (basename p)"
  unfolding basename_def using set_takeWhileD by fastforce

lemma basename_dir:
  assumes "d = [] \<or> last d = CHR ''/''" "CHR ''/'' \<notin> set b"
  shows "basename (d @ b) = b"
proof -
  have "takeWhile (\<lambda>c. c \<noteq> CHR ''/'') (rev b @ rev d) = rev b"
  proof (cases d rule: rev_cases)
    case Nil
    with assms(2) show ?thesis by (simp add: takeWhile_none)
  next
    case (snoc d' x)
    with assms(1) have "x = CHR ''/''" by simp
    with snoc assms(2) show ?thesis by (simp add: takeWhile_upto)
  qed
  then show ?thesis by (simp add: basename_def)
qed

lemma dir_base:
  obtains d where "p = d @ basename p" "d = [] \<or> last d = CHR ''/''"
proof
  let ?d = "rev (dropWhile (\<lambda>c. c \<noteq> CHR ''/'') (rev p))"
  have "rev p = takeWhile (\<lambda>c. c \<noteq> CHR ''/'') (rev p) @ dropWhile (\<lambda>c. c \<noteq> CHR ''/'') (rev p)"
    by simp
  then have "rev (rev p) = ?d @ basename p"
    unfolding basename_def by (metis rev_append)
  then show "p = ?d @ basename p" by simp
  show "?d = [] \<or> last ?d = CHR ''/''"
    using hd_dropWhile[of "\<lambda>c. c \<noteq> CHR ''/''" "rev p"]
    by (auto simp: last_rev)
qed

lemma basename_append: "CHR ''/'' \<notin> set q \<Longrightarrow> basename (p @ q) = basename p @ q"
proof -
  assume q: "CHR ''/'' \<notin> set q"
  obtain d where d: "p = d @ basename p" "d = [] \<or> last d = CHR ''/''" by (rule dir_base)
  have "basename (d @ (basename p @ q)) = basename p @ q"
    by (rule basename_dir) (use d q basename_no_sep in auto)
  with d(1) show ?thesis by (metis append.assoc)
qed

lemma basename_join: "CHR ''/'' \<notin> set b \<Longrightarrow> basename (path_join a b) = b"
proof -
  assume b: "CHR ''/'' \<notin> set b"
  then have np: "\<not> prefix ''/'' b" by (cases b) auto
  show ?thesis
  proof (cases "a = [] \<or> suffix ''/'' a")
    case True
    then have "a = [] \<or> last a = CHR ''/''" by (auto simp: suffix_def)
    with True np b show ?thesis by (simp add: path_join_def basename_dir)
  next
    case False
    have "basename ((a @ ''/'') @ b) = b" by (rule basename_dir) (use b in auto)
    with False np show ?thesis by (simp add: path_join_def)
  qed
qed

lemma splitext_ext:
  assumes "d = [] \<or> last d = CHR ''/''" "CHR ''/'' \<notin> set y" "CHR ''/'' \<notin> set e"
    "CHR ''.'' \<notin> set e" "\<exists>c\<in>set y. c \<noteq> CHR ''.''"
  shows "splitext (d @ y @ CHR ''.'' # e) = (d @ y, CHR ''.'' # e)"
proof -
  have b: "basename (d @ y @ CHR ''.'' # e) = y @ CHR ''.'' # e"
    by (rule basename_dir) (use assms in auto)
  have e: "takeWhile (\<lambda>c. c \<noteq> CHR ''.'') (rev e @ CHR ''.'' # rev y) = rev e"
    using assms(4) by (simp add: takeWhile_upto)
  show ?thesis
    using assms(5) by (simp add: splitext_def b e Let_def)
qed

lemma splitext_dots:
  assumes "d = [] \<or> last d = CHR ''/''" "CHR ''/'' \<notin> set y" "CHR ''/'' \<notin> set e"
    "CHR ''.'' \<notin> set e" "\<forall>c\<in>set y. c = CHR ''.''"
  shows "splitext (d @ y @ CHR ''.'' # e) = (d @ y @ CHR ''.'' # e, [])"
proof -
  have b: "basename (d @ y @ CHR ''.'' # e) = y @ CHR ''.'' # e"
    by (rule basename_dir) (use assms in auto)
  have e: "takeWhile (\<lambda>c. c \<noteq> CHR ''.'') (rev e @ CHR ''.'' # rev y) = rev e"
    using assms(4) by (simp add: takeWhile_upto)
  show ?thesis
    using assms(5) by (simp add: splitext_def b e Let_def)
qed

lemma org_title:
  assumes "suffix ''.md'' md_file"
  shows "fst (splitext (basename (fst (splitext md_file) @ ''.org'')))
         = fst (splitext (basename md_file))"
    and "suffix ''.org'' (basename (fst (splitext md_file) @ ''.org''))"
proof -
  from assms obtain x where x: "md_file = x @ ''.md''" by (auto simp: suffix_def)
  obtain d where d: "x = d @ basename x" "d = [] \<or> last d = CHR ''/''" by (rule dir_base)
  let ?y = "basename x"
  have ny: "CHR ''/'' \<notin> set ?y" by (rule basename_no_sep)
  have md: "md_file = d @ ?y @ CHR ''.'' # ''md''" using x d(1) by simp
  have bmd: "basename md_file = ?y @ CHR ''.'' # ''md''"
    unfolding x by (simp add: basename_append)
  show "suffix ''.org'' (basename (fst (splitext md_file) @ ''.org''))"
    by (simp add: basename_append suffix_def)
  show "fst (splitext (basename (fst (splitext md_file) @ ''.org'')))
         = fst (splitext (basename md_file))"
  proof (cases "\<exists>c\<in>set ?y. c \<noteq> CHR ''.''")
    case True
    have "splitext md_file = (d @ ?y, CHR ''.'' # ''md'')"
      unfolding md by (rule splitext_ext) (use d ny True in auto)
    with d(1) have 1: "fst (splitext md_file) = x" by simp
    have 2: "splitext (basename md_file) = (?y, CHR ''.'' # ''md'')"
      unfolding bmd using splitext_ext[of "[]" ?y "''md''"] ny True by simp
    have 3: "basename (x @ ''.org'') = ?y @ ''.org''"
      by (simp add: basename_append)
    have "splitext (?y @ CHR ''.'' # ''org'') = (?y, CHR ''.'' # ''org'')"
      using splitext_ext[of "[]" ?y "''org''"] ny True by simp
    then show ?thesis by (simp add: 1 2 3)
  next
    case False
    then have dots: "\<forall>c\<in>set ?y. c = CHR ''.''" by blast
    have 1: "splitext md_file = (md_file, [])"
      unfolding md by (rule splitext_dots) (use d ny dots in auto)
    have 2: "splitext (?y @ ''.md'') = (?y @ ''.md'', [])"
      using splitext_dots[of "[]" ?y "''md''"] ny dots by simp
    have "basename (md_file @ ''.org'') = basename md_file @ ''.org''"
      by (simp add: basename_append)
    moreover have "splitext ((?y @ ''.md'') @ CHR ''.'' # ''org'') = (?y @ ''.md'', CHR ''.'' # ''org'')"
      using splitext_ext[of "[]" "?y @ ''.md''" "''org''"] ny by simp
    ultimately show ?thesis by (simp add: 1 2 bmd)
  qed
qed

lemma convert_file_ids:
  "convert_file pandoc uuid4 md_file out_dir relative_path st = Inr st' \<Longrightarrow>
   existing_ids st' = (existing_ids st)(fst (splitext (basename md_file)) \<mapsto> uuid4)"
  by (auto simp: convert_file_def Let_def generate_org_roam_header_def
      split: option.splits prod.splits)

lemma convert_file_emits:
  assumes "convert_file pandoc uid md_file out_dir rel st = Inr st'"
  shows "\<exists>tags body. files st' (org_file_of md_file out_dir rel)
           = Some (fst (generate_org_roam_header (org_file_of md_file out_dir rel) tags uid) @ body)"
  using assms
  by (auto simp: convert_file_def Let_def org_file_of_def
      split: option.splits prod.splits) (metis fst_conv)+

lemma convert_files_append:
  "convert_files pandoc out_dir (xs @ ys) st =
     (case convert_files pandoc out_dir xs st of
        Inl e \<Rightarrow> Inl e
      | Inr s \<Rightarrow> convert_files pandoc out_dir ys s)"
  by (induction xs arbitrary: st) (auto split: sum.splits)

lemma convert_files_ids:
  "convert_files pandoc out_dir jobs st = Inr st' \<Longrightarrow>
   existing_ids st' =
     fold (\<lambda>(uuid4, md_file, relative_path) ids. ids(fst (splitext (basename md_file)) \<mapsto> uuid4))
       jobs (existing_ids st)"
proof (induction jobs arbitrary: st)
  case Nil
  then show ?case by simp
next
  case (Cons j jobs)
  obtain u f rp where j: "j = (u, f, rp)" by (cases j)
  from Cons.prems j obtain st1 where
    c: "convert_file pandoc u f out_dir rp st = Inr st1"
    and r: "convert_files pandoc out_dir jobs st1 = Inr st'"
    by (auto split: sum.splits)
  from Cons.IH[OF r] convert_file_ids[OF c] j show ?case by simp
qed

lemma convert_file_reads:
  "convert_file pandoc uuid4 md_file out_dir relative_path st = Inr st' \<Longrightarrow>
   \<exists>content. files st md_file = Some content"
  by (auto simp: convert_file_def Let_def split: option.splits)

lemma convert_file_links:
  assumes "convert_file pandoc uuid4 md_file out_dir relative_path st = Inr st'"
    and "files st md_file = Some content"
    and "pandoc (convert_links_and_images
           (remove_md_header (fst (extract_and_convert_tags content))) (existing_ids st)) = Some r"
  shows "files st' (org_file_of md_file out_dir relative_path) =
     Some (fst (generate_org_roam_header (org_file_of md_file out_dir relative_path)
                  (snd (extract_and_convert_tags content)) uuid4) @ r)"
  using assms
  by (auto simp: convert_file_def Let_def org_file_of_def generate_org_roam_header_def
      split: option.splits prod.splits if_splits)

lemma item_text_hd [simp]: "hd (item_text it @ R) = CHR ''-''" "item_text it @ R \<noteq> []"
  by (simp_all add: item_text_def split: prod.splits)

lemma items_text_hd:
  "items \<noteq> [] \<Longrightarrow> hd (concat (map item_text items) @ R) = CHR ''-''
     \<and> concat (map item_text items) @ R \<noteq> []"
  by (cases items) (auto simp: item_text_def split: prod.splits)

lemma item_hit:
  assumes ok: "item_ok (ws, w, ws')"
    and stop: "R = [] \<or> (\<not> is_space (hd R) \<and> (ws' = [] \<longrightarrow> \<not> is_word (hd R)))"
    and k: "k R (g(1 \<mapsto> item_text (ws, w, ws'))) = Some y"
  shows "rmatch tag_item_pattern n (item_text (ws, w, ws') @ R) g k = Some y"
proof -
  from ok obtain s0 ws1 where ws: "ws = s0 # ws1" by (cases ws) (auto simp: item_ok_def)
  from ok obtain w0 w1 where w: "w = w0 # w1" by (cases w) (auto simp: item_ok_def)
  from ok ws w have cls: "is_space s0" "\<forall>c\<in>set ws1. is_space c" "is_word w0"
    "\<forall>c\<in>set w1. is_word c" "\<forall>c\<in>set ws'. is_space c"
    by (auto simp: item_ok_def)
  have d1: "dropWhile is_space (ws1 @ w0 # w1 @ ws' @ R) = w0 # w1 @ ws' @ R"
    by (rule dropWhile_stop) (use cls is_space_not_word in auto)
  have d2: "dropWhile is_word (w1 @ ws' @ R) = ws' @ R"
  proof (rule dropWhile_stop)
    show "\<forall>c\<in>set w1. is_word c" by (rule cls)
    show "ws' @ R = [] \<or> \<not> is_word (hd (ws' @ R))"
      using stop cls(5) is_space_not_word by (cases ws') auto
  qed
  have d3: "dropWhile is_space (ws' @ R) = R"
    by (rule dropWhile_stop) (use stop cls in auto)
  have tk: "take (length (item_text (ws, w, ws') @ R) - length R) (item_text (ws, w, ws') @ R)
            = item_text (ws, w, ws')"
    by simp
  show ?thesis
    apply (simp add: tag_item_pattern_def Plus_def item_text_def ws w cls
        star_cls_disjoint' is_space_not_word d1)
    apply (rule star_cls_hit)
    apply (simp add: d2)
    apply (rule star_cls_hit)
    apply (use k tk in \<open>simp add: d3 item_text_def ws w\<close>)
    done
qed

lemma items_loop:
  assumes "\<forall>it\<in>set items. item_ok it" "block_ends items post"
  shows "\<exists>G. rmatch (Star tag_item_pattern) n (concat (map item_text items) @ post) g
              (\<lambda>t h. Some (t, h)) = Some (post, G)"
  using assms
proof (induction items arbitrary: g)
  case Nil
  then have "\<not> item_here post" by (simp add: block_ends_def)
  then show ?case
    by (subst rmatch.simps) (simp add: item_miss)
next
  case (Cons it items)
  obtain ws w ws' where it: "it = (ws, w, ws')" by (cases it)
  let ?R = "concat (map item_text items) @ post"
  have ok: "item_ok (ws, w, ws')" using Cons.prems(1) it by simp
  have stop: "?R = [] \<or> (\<not> is_space (hd ?R) \<and> (ws' = [] \<longrightarrow> \<not> is_word (hd ?R)))"
  proof (cases items)
    case Nil
    with Cons.prems(2) it show ?thesis by (auto simp: block_ends_def trailing_def)
  next
    case (Cons a list)
    then show ?thesis using items_text_hd[of items post] by simp
  qed
  have be: "block_ends items post"
    using Cons.prems(2) by (cases items) (auto simp: block_ends_def)
  have "\<exists>G. rmatch (Star tag_item_pattern) n ?R (g(1 \<mapsto> item_text (ws, w, ws')))
              (\<lambda>t h. Some (t, h)) = Some (post, G)"
    by (rule Cons.IH[OF _ be]) (use Cons.prems(1) in simp)
  then obtain G where G: "rmatch (Star tag_item_pattern) n ?R (g(1 \<mapsto> item_text (ws, w, ws')))
              (\<lambda>t h. Some (t, h)) = Some (post, G)" by blast
  have "rmatch tag_item_pattern n (item_text (ws, w, ws') @ ?R) g
          (\<lambda>t h. if length t < length (item_text (ws, w, ws') @ ?R)
                 then rmatch (Star tag_item_pattern) n t h (\<lambda>t h. Some (t, h)) else None)
        = Some (post, G)"
    by (rule item_hit[OF ok stop]) (use G in \<open>simp add: item_text_def\<close>)
  then show ?case
    by (subst rmatch.simps) (auto simp: it)
qed

lemma block_attempt:
  assumes "items \<noteq> []" "\<forall>c\<in>set ws0. is_space c" "\<forall>it\<in>set items. item_ok it"
    "block_ends items post"
  shows "\<exists>G. attempt tags_block_pattern n (block_text ws0 items @ post) False = Some (post, G)"
proof -
  from assms(1) obtain it rest where items: "items = it # rest" by (cases items) auto
  obtain ws w ws' where it: "it = (ws, w, ws')" by (cases it)
  let ?R = "concat (map item_text rest) @ post"
  have ok: "item_ok (ws, w, ws')" using assms(3) items it by simp
  have stop: "?R = [] \<or> (\<not> is_space (hd ?R) \<and> (ws' = [] \<longrightarrow> \<not> is_word (hd ?R)))"
  proof (cases rest)
    case Nil
    with assms(4) items it show ?thesis by (auto simp: block_ends_def trailing_def)
  next
    case (Cons a list)
    then show ?thesis using items_text_hd[of rest post] by simp
  qed
  have be: "block_ends rest post"
    using assms(4) items by (cases rest) (auto simp: block_ends_def)
  have "\<exists>G. rmatch (Star tag_item_pattern) n ?R ((\<lambda>_. None)(1 \<mapsto> item_text (ws, w, ws')))
              (\<lambda>t h. Some (t, h)) = Some (post, G)"
    by (rule items_loop[OF _ be]) (use assms(3) items in simp)
  then obtain G where G: "rmatch (Star tag_item_pattern) n ?R ((\<lambda>_. None)(1 \<mapsto> item_text (ws, w, ws')))
              (\<lambda>t h. Some (t, h)) = Some (post, G)" by blast
  have h: "rmatch tag_item_pattern n (item_text (ws, w, ws') @ ?R) (\<lambda>_. None)
          (\<lambda>t h. rmatch (Star tag_item_pattern) n t h (\<lambda>t h. Some (t, h)))
        = Some (post, G)"
    by (rule item_hit[OF ok stop]) (use G in simp)
  have d: "dropWhile is_space (ws0 @ item_text (ws, w, ws') @ ?R) = item_text (ws, w, ws') @ ?R"
    by (rule dropWhile_stop) (use assms(2) in auto)
  have "attempt tags_block_pattern n (block_text ws0 items @ post) False = Some (post, G)"
    by (simp add: attempt_def tags_block_pattern_def lit_def Plus_def block_text_def items it
        star_cls_disjoint' item_miss d h)
  then show ?thesis by blast
qed

lemma tag_attempt_miss:
  "t = [] \<or> hd t \<noteq> CHR ''-'' \<Longrightarrow> attempt tag_pattern n t adv = None"
  by (cases t) (auto simp: attempt_def tag_pattern_def)

lemma tag_attempt_hit:
  assumes ok: "item_ok (ws, w, ws')" and sep: "ws' = [] \<longrightarrow> R = []"
  shows "attempt tag_pattern n (item_text (ws, w, ws') @ R) False = Some (ws' @ R, [1 \<mapsto> w])"
proof -
  from ok obtain s0 ws1 where ws: "ws = s0 # ws1" by (cases ws) (auto simp: item_ok_def)
  from ok obtain w0 w1 where w: "w = w0 # w1" by (cases w) (auto simp: item_ok_def)
  from ok ws w have cls: "is_space s0" "\<forall>c\<in>set ws1. is_space c" "is_word w0"
    "\<forall>c\<in>set w1. is_word c" "\<forall>c\<in>set ws'. is_space c"
    by (auto simp: item_ok_def)
  have ns: "\<not> is_space w0" using cls(3) is_space_not_word by blast
  have d1: "dropWhile is_space (ws1 @ w0 # w1 @ ws' @ R) = w0 # w1 @ ws' @ R"
    by (rule dropWhile_stop) (use cls ns in auto)
  have d2: "dropWhile (in_cls NonSpace) (w1 @ ws' @ R) = ws' @ R"
  proof (rule dropWhile_stop)
    show "\<forall>c\<in>set w1. in_cls NonSpace c" using cls(4) is_space_not_word by auto
    show "ws' @ R = [] \<or> \<not> in_cls NonSpace (hd (ws' @ R))"
      using sep cls(5) by (cases ws') auto
  qed
  show ?thesis
    by (simp add: attempt_def tag_pattern_def Plus_def item_text_def ws w cls ns
        star_cls_disjoint' star_cls_total' d1 d2)
qed

lemma tag_scan:
  assumes "\<forall>c\<in>set sp. c \<noteq> CHR ''-''" "\<forall>it\<in>set items. item_ok it"
    "\<forall>it\<in>set (butlast items). trailing it \<noteq> []"
  shows "map (\<lambda>m. group_str m 1) (fst (scan tag_pattern n (sp @ concat (map item_text items)) False))
         = map tag_of items"
  using assms
proof (induction items arbitrary: sp)
  case Nil
  have "search tag_pattern n sp False = None"
  proof (rule search_None)
    fix t assume "suffix t sp"
    then have "set t \<subseteq> set sp" by (rule set_mono_suffix)
    with Nil.prems(1) have "t = [] \<or> hd t \<noteq> CHR ''-''" by (cases t) auto
    then show "attempt tag_pattern n t False = None" by (rule tag_attempt_miss)
  qed
  then show ?case by (simp add: scan_None)
next
  case (Cons it items)
  obtain ws w ws' where it: "it = (ws, w, ws')" by (cases it)
  let ?R = "concat (map item_text items)"
  have ok: "item_ok (ws, w, ws')" using Cons.prems(2) it by simp
  have sep: "ws' = [] \<longrightarrow> ?R = []"
    using Cons.prems(3) it by (cases items) (auto simp: trailing_def)
  have sk: "search tag_pattern n (sp @ item_text it @ ?R) False
        = search tag_pattern n (item_text it @ ?R) False"
  proof (rule search_skip)
    fix u2 assume "suffix u2 sp" "u2 \<noteq> []"
    then obtain c v where "u2 = c # v" "c \<in> set sp"
      by (cases u2) (auto dest: set_mono_suffix)
    with Cons.prems(1) have "hd (u2 @ item_text it @ ?R) \<noteq> CHR ''-''" by auto
    then show "attempt tag_pattern n (u2 @ item_text it @ ?R) False = None"
      by (intro tag_attempt_miss) simp
  qed
  have se: "search tag_pattern n (sp @ item_text it @ ?R) False
        = Some (item_text it @ ?R, ws' @ ?R, [1 \<mapsto> w])"
    using sk search_hit[OF tag_attempt_hit[OF ok sep, of n]] by (simp add: it)
  have sp': "\<forall>c\<in>set ws'. c \<noteq> CHR ''-''"
    using ok by (auto simp: item_ok_def)
  have bl: "\<forall>it\<in>set (butlast items). trailing it \<noteq> []"
    using Cons.prems(3) by (cases items) auto
  have ih: "map (\<lambda>m. group_str m 1) (fst (scan tag_pattern n (ws' @ ?R) False)) = map tag_of items"
    by (rule Cons.IH[OF sp' _ bl]) (use Cons.prems(2) in simp)
  have ne: "length (ws' @ ?R) \<noteq> length (item_text it @ ?R)"
    by (simp add: it item_text_def)
  have tg: "tag_of it = w" by (simp add: tag_of_def it)
  have "scan tag_pattern n (sp @ concat (map item_text (it # items))) False
        = (\<lparr>m_pre = take (length (sp @ item_text it @ ?R) - length (item_text it @ ?R))
                         (sp @ item_text it @ ?R),
             m_text = take (length (item_text it @ ?R) - length (ws' @ ?R)) (item_text it @ ?R),
             m_groups = [1 \<mapsto> w]\<rparr> # fst (scan tag_pattern n (ws' @ ?R) False),
           snd (scan tag_pattern n (ws' @ ?R) False))"
    using scan_Some[OF se] ne by simp
  then show ?case
    using ih by (simp add: group_str_def tg)
qed

lemma findall_block:
  assumes "\<forall>c\<in>set ws0. is_space c" "\<forall>it\<in>set items. item_ok it"
    "\<forall>it\<in>set (butlast items). trailing it \<noteq> []"
  shows "re_findall tag_pattern (block_text ws0 items) = map tag_of items"
proof -
  have "\<forall>c\<in>set (''tags:'' @ ws0). c \<noteq> CHR ''-''"
    using assms(1) by auto
  from tag_scan[OF this assms(2,3)] show ?thesis
    by (simp add: re_findall_def finditer_def block_text_def)
qed

lemma block_finditer:
  assumes "items \<noteq> []" "\<forall>c\<in>set ws0. is_space c" "\<forall>it\<in>set items. item_ok it"
    "block_ends items post"
    "\<forall>u \<in> set (suffixes pre). u \<noteq> [] \<longrightarrow> \<not> tags_block_here (u @ block_text ws0 items @ post)"
    "\<not> has_tags_block post"
  shows "\<exists>G. finditer tags_block_pattern (pre @ block_text ws0 items @ post)
           = ([\<lparr>m_pre = pre, m_text = block_text ws0 items, m_groups = G\<rparr>], post)"
proof -
  let ?b = "block_text ws0 items"
  let ?s = "pre @ ?b @ post"
  from block_attempt[OF assms(1-4), of "length ?s"]
  obtain G where a: "attempt tags_block_pattern (length ?s) (?b @ post) False = Some (post, G)"
    by blast
  have "search tags_block_pattern (length ?s) ?s False
        = search tags_block_pattern (length ?s) (?b @ post) False"
    by (rule search_skip) (use assms(5) in \<open>auto intro: tags_attempt_miss\<close>)
  also have "\<dots> = Some (?b @ post, post, G)"
    by (rule search_hit[OF a])
  finally have se: "search tags_block_pattern (length ?s) ?s False = Some (?b @ post, post, G)" .
  have "scan tags_block_pattern (length ?s) post False = ([], post)"
    by (rule scan_None) (rule tags_search_miss[OF assms(6)])
  moreover have "length post \<noteq> length (?b @ post)"
    by (simp add: block_text_def)
  ultimately have "finditer tags_block_pattern ?s
           = ([\<lparr>m_pre = pre, m_text = ?b, m_groups = G\<rparr>], post)"
    unfolding finditer_def by (subst scan_Some[OF se]) simp
  then show ?thesis by blast
qed

section \<open>The header stripper\<close>

text \<open>
  Claim C5. A text that begins with \<open>---\<close>, a newline, \<open>X\<close>, a newline, \<open>---\<close> and a
  newline, where no line of \<open>X\<close> is \<open>---\<close>, loses exactly this prefix. A text that
  does not begin with the line \<open>---\<close> is returned as it is. Only the first region is
  removed: a second one later in the text stays.
\<close>

theorem remove_md_header_strips_first_region:
  "(''---'' \<notin> set (split_lines X) \<longrightarrow>
      remove_md_header (''---\<newline>'' @ X @ ''\<newline>---\<newline>'' @ rest) = rest)
   \<and> (\<not> prefix ''---\<newline>'' content \<longrightarrow> remove_md_header content = content)
   \<and> (''---'' \<notin> set (split_lines X) \<longrightarrow>
      remove_md_header (''---\<newline>'' @ X @ ''\<newline>---\<newline>'' @ body @ ''---\<newline>'' @ Y @ ''\<newline>---\<newline>'' @ rest)
        = body @ ''---\<newline>'' @ Y @ ''\<newline>---\<newline>'' @ rest)"
  using remove_md_header_hit remove_md_header_miss by blast

theorem remove_md_header_strips_first_region_witness:
  "''---'' \<notin> set (split_lines ''tags:\<newline>- a'')
   \<and> remove_md_header (''---\<newline>'' @ ''tags:\<newline>- a'' @ ''\<newline>---\<newline>'' @ ''text\<newline>'') = ''text\<newline>''
   \<and> \<not> prefix ''---\<newline>'' ''# Title\<newline>---\<newline>x\<newline>---\<newline>''
   \<and> remove_md_header ''# Title\<newline>---\<newline>x\<newline>---\<newline>'' = ''# Title\<newline>---\<newline>x\<newline>---\<newline>''
   \<and> remove_md_header (''---\<newline>'' @ ''tags:\<newline>- a'' @ ''\<newline>---\<newline>'' @ ''one\<newline>'' @ ''---\<newline>'' @ ''b'' @ ''\<newline>---\<newline>'' @ ''text\<newline>'')
        = ''one\<newline>'' @ ''---\<newline>'' @ ''b'' @ ''\<newline>---\<newline>'' @ ''text\<newline>''"
proof -
  have h1: "''---'' \<notin> set (split_lines ''tags:\<newline>- a'')" by simp
  have h2: "\<not> prefix ''---\<newline>'' ''# Title\<newline>---\<newline>x\<newline>---\<newline>''" by simp
  from h1 h2 remove_md_header_strips_first_region[where X = "''tags:\<newline>- a''" and rest = "''text\<newline>''"
      and content = "''# Title\<newline>---\<newline>x\<newline>---\<newline>''" and body = "''one\<newline>''" and Y = "''b''"]
  show ?thesis by blast
qed



lemma extract_no_block:
  "\<not> has_tags_block content \<Longrightarrow>
   extract_and_convert_tags content = (content, [])
   \<and> extract_and_convert_tags_org content = (content, [])"
  by (simp add: extract_and_convert_tags_def extract_and_convert_tags_org_def
      re_sub_st_nomatch tags_search_miss)

section \<open>Input without a match\<close>



section \<open>Several tags blocks\<close>

text \<open>
  Claim C10. The text is the matches of the tags-block pattern with the text between
  them. The tag extractor of either script returns the text without any of the matches,
  and when there is a match the tags it returns are those of the last one.
\<close>

theorem tags_of_last_block:
  "content = concat (map (\<lambda>m. m_pre m @ m_text m) (fst (finditer tags_block_pattern content)))
               @ snd (finditer tags_block_pattern content)
   \<and> fst (extract_and_convert_tags content) =
       concat (map m_pre (fst (finditer tags_block_pattern content)))
         @ snd (finditer tags_block_pattern content)
   \<and> fst (extract_and_convert_tags_org content) =
       concat (map m_pre (fst (finditer tags_block_pattern content)))
         @ snd (finditer tags_block_pattern content)
   \<and> (fst (finditer tags_block_pattern content) \<noteq> [] \<longrightarrow>
       snd (extract_and_convert_tags content) =
         '':'' @ str_join '':''
           (re_findall tag_pattern (m_text (last (fst (finditer tags_block_pattern content)))))
         @ '':''
       \<and> snd (extract_and_convert_tags_org content) =
         ''#+FILETAGS: '' @ str_join '' ''
           (map (\<lambda>tag. '':'' @ tag @ '':'')
              (re_findall tag_pattern
                 (m_text (last (fst (finditer tags_block_pattern content)))))))"
  using finditer_decomp[of content tags_block_pattern]
  by (simp add: extract_via_finditer extract_org_via_finditer)

theorem tags_of_last_block_witness:
  "length (fst (finditer tags_block_pattern
      ''tags:\<newline>- a\<newline>- b\<newline>text\<newline>tags:\<newline>- c\<newline>end'')) = 2
   \<and> extract_and_convert_tags ''tags:\<newline>- a\<newline>- b\<newline>text\<newline>tags:\<newline>- c\<newline>end''
       = (''text\<newline>end'', '':c:'')"
proof -
  let ?c = "''tags:\<newline>- a\<newline>- b\<newline>text\<newline>tags:\<newline>- c\<newline>end''"
  have l: "length (fst (finditer tags_block_pattern ?c)) = 2" by code_simp
  then have ne: "fst (finditer tags_block_pattern ?c) \<noteq> []" by auto
  have p: "concat (map m_pre (fst (finditer tags_block_pattern ?c)))
             @ snd (finditer tags_block_pattern ?c) = ''text\<newline>end''"
    by code_simp
  have t: "re_findall tag_pattern (m_text (last (fst (finditer tags_block_pattern ?c)))) = [''c'']"
    by code_simp
  from tags_of_last_block[of ?c] ne
  have "fst (extract_and_convert_tags ?c) = ''text\<newline>end''"
    and "snd (extract_and_convert_tags ?c) = '':c:''"
    by (simp_all only: p t) simp_all
  with l show ?thesis by (simp add: prod_eq_iff)
qed

section \<open>Tags blocks that are not of the recognized form\<close>

text \<open>
  Claim C3 as stated fails: the pattern is not anchored at the end of the block, so a
  block whose first item is of the recognized form is matched up to the first thing
  that is not. Of the tag \<open>foo bar\<close> the word \<open>foo\<close> is extracted and removed with the
  block, and \<open>bar\<close> stays in the text.
\<close>

theorem multi_word_tag_counterexample:
  "extract_and_convert_tags ''tags:\<newline>- foo bar\<newline>'' = (''bar\<newline>'', '':foo:'')
   \<and> extract_and_convert_tags ''tags:\<newline>- foo bar\<newline>'' \<noteq> (''tags:\<newline>- foo bar\<newline>'', [])"
  by code_simp

text \<open>
  Claim C3, as it holds. In a text with one \<open>tags:\<close>, when what follows \<open>tags:\<close> and
  optional white space is not a hyphen, white space and a word character (the first
  value is quoted, or the list marker is not a hyphen), no block is recognized: the
  text comes back unchanged and without tags, from the extractor of either script.
\<close>

theorem malformed_first_item_not_recognized:
  "content = pre @ ''tags:'' @ r \<Longrightarrow>
   \<forall>t \<in> set (suffixes content). prefix ''tags:'' t \<longrightarrow> t = ''tags:'' @ r \<Longrightarrow>
   \<not> item_here (dropWhile is_space r) \<Longrightarrow>
   extract_and_convert_tags content = (content, [])
   \<and> extract_and_convert_tags_org content = (content, [])"
proof -
  assume one: "\<forall>t \<in> set (suffixes content). prefix ''tags:'' t \<longrightarrow> t = ''tags:'' @ r"
    and ni: "\<not> item_here (dropWhile is_space r)"
  have "\<not> tags_block_here t" if "t \<in> set (suffixes content)" for t
  proof
    assume h: "tags_block_here t"
    then have "prefix ''tags:'' t" by (simp add: tags_block_here_def)
    with one that have "t = ''tags:'' @ r" by blast
    with h ni show False by (simp add: tags_block_here_def)
  qed
  then have "\<not> has_tags_block content" by (auto simp: has_tags_block_def)
  then show ?thesis by (rule extract_no_block)
qed

theorem malformed_first_item_not_recognized_witness:
  "''---\<newline>tags:\<newline>- \"a\"\<newline>* b\<newline>---\<newline>text'' = ''---\<newline>'' @ ''tags:'' @ ''\<newline>- \"a\"\<newline>* b\<newline>---\<newline>text''
   \<and> list_all (\<lambda>t. prefix ''tags:'' t \<longrightarrow> t = ''tags:'' @ ''\<newline>- \"a\"\<newline>* b\<newline>---\<newline>text'')
         (suffixes ''---\<newline>tags:\<newline>- \"a\"\<newline>* b\<newline>---\<newline>text'')
   \<and> \<not> item_here (dropWhile is_space ''\<newline>- \"a\"\<newline>* b\<newline>---\<newline>text'')
   \<and> extract_and_convert_tags ''---\<newline>tags:\<newline>- \"a\"\<newline>* b\<newline>---\<newline>text''
       = (''---\<newline>tags:\<newline>- \"a\"\<newline>* b\<newline>---\<newline>text'', [])
   \<and> extract_and_convert_tags_org ''---\<newline>tags:\<newline>- \"a\"\<newline>* b\<newline>---\<newline>text''
       = (''---\<newline>tags:\<newline>- \"a\"\<newline>* b\<newline>---\<newline>text'', [])"
proof -
  have h1: "''---\<newline>tags:\<newline>- \"a\"\<newline>* b\<newline>---\<newline>text'' = ''---\<newline>'' @ ''tags:'' @ ''\<newline>- \"a\"\<newline>* b\<newline>---\<newline>text''"
    by simp
  have h2: "\<forall>t \<in> set (suffixes ''---\<newline>tags:\<newline>- \"a\"\<newline>* b\<newline>---\<newline>text'').
         prefix ''tags:'' t \<longrightarrow> t = ''tags:'' @ ''\<newline>- \"a\"\<newline>* b\<newline>---\<newline>text''"
    by code_simp
  have h3: "\<not> item_here (dropWhile is_space ''\<newline>- \"a\"\<newline>* b\<newline>---\<newline>text'')"
    by code_simp
  have h2': "list_all (\<lambda>t. prefix ''tags:'' t \<longrightarrow> t = ''tags:'' @ ''\<newline>- \"a\"\<newline>* b\<newline>---\<newline>text'')
         (suffixes ''---\<newline>tags:\<newline>- \"a\"\<newline>* b\<newline>---\<newline>text'')"
    using h2 by (simp only: list_all_iff)
  from malformed_first_item_not_recognized[OF h1 h2 h3] h1 h2' h3
  show ?thesis by blast
qed

section \<open>A second application\<close>

text \<open>
  Claim C4 as stated fails for each of the components: what a pass removes or
  rewrites can leave a new match behind. Removing the inner tags block joins the
  pieces of an outer one; after the front matter the text can begin with another
  delimited region; the subheading \<open>b#c\<close> is rewritten to \<open>b::c\<close> only in a second
  pass; an image inside the alternative text of an image is rewritten in a second
  pass.
\<close>

theorem second_application_counterexample:
  "fst (extract_and_convert_tags (fst (extract_and_convert_tags ''tatags:\<newline>- a\<newline>gs:\<newline>- b\<newline>'')))
     \<noteq> fst (extract_and_convert_tags ''tatags:\<newline>- a\<newline>gs:\<newline>- b\<newline>'')
   \<and> remove_md_header (remove_md_header ''---\<newline>a\<newline>---\<newline>---\<newline>b\<newline>---\<newline>'')
     \<noteq> remove_md_header ''---\<newline>a\<newline>---\<newline>---\<newline>b\<newline>---\<newline>''
   \<and> convert_links (convert_links ''[[a#b#c]]'') \<noteq> convert_links ''[[a#b#c]]''
   \<and> convert_links_and_images (convert_links_and_images ''![![a](b)](c)'' Map.empty) Map.empty
     \<noteq> convert_links_and_images ''![![a](b)](c)'' Map.empty"
  by code_simp

text \<open>
  Claim C4, as it holds. A second application is a no-op when the output of the
  first has nothing left to match: no tags block begins in it; it does not begin
  with the line \<open>---\<close> or has no closing line \<open>---\<close>; every wiki-link occurrence in
  it is one that the rewriter returns as it is (for the identifier-resolving
  rewriter: its target is not in the index) and, for the rewriter of images, \<open>![\<close>
  does not occur in it. The second application of the tag extractor then returns the
  text of the first and no tags.
\<close>

theorem second_application_noop:
  "(\<not> has_tags_block (fst (extract_and_convert_tags content)) \<longrightarrow>
      extract_and_convert_tags (fst (extract_and_convert_tags content))
        = (fst (extract_and_convert_tags content), []))
   \<and> (\<not> prefix ''---\<newline>'' (remove_md_header content)
        \<or> \<not> occurs ''\<newline>---\<newline>'' (drop 4 (remove_md_header content)) \<longrightarrow>
      remove_md_header (remove_md_header content) = remove_md_header content)
   \<and> ((\<forall>m \<in> set (fst (finditer link_pattern (convert_links content))).
          transform_link_org m = m_text m) \<longrightarrow>
      convert_links (convert_links content) = convert_links content)
   \<and> ((\<forall>m \<in> set (fst (finditer link_pattern (convert_links_and_images content ids))).
          transform_link ids m = m_text m)
        \<and> \<not> occurs ''!['' (convert_links_and_images content ids) \<longrightarrow>
      convert_links_and_images (convert_links_and_images content ids) ids
        = convert_links_and_images content ids)"
proof (intro conjI impI)
  assume "\<not> has_tags_block (fst (extract_and_convert_tags content))"
  then show "extract_and_convert_tags (fst (extract_and_convert_tags content))
        = (fst (extract_and_convert_tags content), [])"
    by (simp add: extract_no_block)
next
  assume "\<not> prefix ''---\<newline>'' (remove_md_header content)
        \<or> \<not> occurs ''\<newline>---\<newline>'' (drop 4 (remove_md_header content))"
  then show "remove_md_header (remove_md_header content) = remove_md_header content"
    by (rule remove_md_header_miss)
next
  assume a: "\<forall>m \<in> set (fst (finditer link_pattern (convert_links content))).
          transform_link_org m = m_text m"
  have "re_sub link_pattern transform_link_org (convert_links content) = convert_links content"
    by (rule re_sub_id) (use a in simp)
  then show "convert_links (convert_links content) = convert_links content"
    by (simp add: convert_links_def[of "convert_links content"])
next
  let ?c = "convert_links_and_images content ids"
  assume a: "(\<forall>m \<in> set (fst (finditer link_pattern ?c)). transform_link ids m = m_text m)
        \<and> \<not> occurs ''!['' ?c"
  have "re_sub link_pattern (transform_link ids) ?c = ?c"
    by (rule re_sub_id) (use a in simp)
  moreover have "re_sub image_pattern transform_image ?c = ?c"
    by (rule re_sub_nomatch, rule image_search_miss) (use a in simp)
  ultimately show "convert_links_and_images ?c ids = ?c"
    by (simp add: convert_links_and_images_def[of ?c])
qed

theorem second_application_noop_witness:
  "\<not> has_tags_block (fst (extract_and_convert_tags ''tags:\<newline>- a\<newline>A [[N|x]] ![p](q)''))
   \<and> \<not> prefix ''---\<newline>'' (remove_md_header ''---\<newline>tags:\<newline>- a\<newline>---\<newline>A [[N|x]]'')
   \<and> list_all (\<lambda>m. transform_link_org m = m_text m)
         (fst (finditer link_pattern (convert_links ''A [[N|x]]'')))
   \<and> list_all (\<lambda>m. transform_link [''N'' \<mapsto> ''0b8a''] m = m_text m)
         (fst (finditer link_pattern
            (convert_links_and_images ''A [[N|x]] ![p](q)'' [''N'' \<mapsto> ''0b8a''])))
   \<and> \<not> occurs ''!['' (convert_links_and_images ''A [[N|x]] ![p](q)'' [''N'' \<mapsto> ''0b8a''])
   \<and> extract_and_convert_tags (fst (extract_and_convert_tags ''tags:\<newline>- a\<newline>A [[N|x]] ![p](q)''))
       = (''A [[N|x]] ![p](q)'', [])
   \<and> remove_md_header (remove_md_header ''---\<newline>tags:\<newline>- a\<newline>---\<newline>A [[N|x]]'') = ''A [[N|x]]''
   \<and> convert_links (convert_links ''A [[N|x]]'') = ''A [[N][x]]''
   \<and> convert_links_and_images
        (convert_links_and_images ''A [[N|x]] ![p](q)'' [''N'' \<mapsto> ''0b8a'']) [''N'' \<mapsto> ''0b8a'']
       = ''A [[id:0b8a][x]] [[file:q][p]]''"
proof -
  have e1: "fst (extract_and_convert_tags ''tags:\<newline>- a\<newline>A [[N|x]] ![p](q)'') = ''A [[N|x]] ![p](q)''"
    by code_simp
  have e2: "remove_md_header ''---\<newline>tags:\<newline>- a\<newline>---\<newline>A [[N|x]]'' = ''A [[N|x]]''"
    by code_simp
  have e3: "convert_links ''A [[N|x]]'' = ''A [[N][x]]''"
    by code_simp
  have e4: "convert_links_and_images ''A [[N|x]] ![p](q)'' [''N'' \<mapsto> ''0b8a'']
              = ''A [[id:0b8a][x]] [[file:q][p]]''"
    by code_simp
  have h1: "\<not> has_tags_block ''A [[N|x]] ![p](q)''"
    by code_simp
  have h2: "\<not> prefix ''---\<newline>'' ''A [[N|x]]''"
    by simp
  have h3: "\<forall>m \<in> set (fst (finditer link_pattern ''A [[N][x]]'')). transform_link_org m = m_text m"
    by code_simp
  have h4: "\<forall>m \<in> set (fst (finditer link_pattern ''A [[id:0b8a][x]] [[file:q][p]]'')).
          transform_link [''N'' \<mapsto> ''0b8a''] m = m_text m"
    by code_simp
  have h5: "\<not> occurs ''!['' ''A [[id:0b8a][x]] [[file:q][p]]''"
    by code_simp
  from second_application_noop[of "''tags:\<newline>- a\<newline>A [[N|x]] ![p](q)''"] h1
  have c1: "extract_and_convert_tags (fst (extract_and_convert_tags ''tags:\<newline>- a\<newline>A [[N|x]] ![p](q)''))
       = (''A [[N|x]] ![p](q)'', [])"
    by (simp add: e1)
  from second_application_noop[of "''---\<newline>tags:\<newline>- a\<newline>---\<newline>A [[N|x]]''"] h2
  have c2: "remove_md_header (remove_md_header ''---\<newline>tags:\<newline>- a\<newline>---\<newline>A [[N|x]]'') = ''A [[N|x]]''"
    by (simp add: e2)
  from second_application_noop[of "''A [[N|x]]''"] h3
  have c3: "convert_links (convert_links ''A [[N|x]]'') = ''A [[N][x]]''"
    by (simp add: e3)
  from second_application_noop[of "''A [[N|x]] ![p](q)''" "[''N'' \<mapsto> ''0b8a'']"] h4 h5
  have c4: "convert_links_and_images
        (convert_links_and_images ''A [[N|x]] ![p](q)'' [''N'' \<mapsto> ''0b8a'']) [''N'' \<mapsto> ''0b8a'']
       = ''A [[id:0b8a][x]] [[file:q][p]]''"
    by (simp add: e4)
  from h1 h2 h3 h4 h5 c1 c2 c3 c4 show ?thesis
    by (simp add: e1 e2 e3 e4 list_all_iff)
qed

section \<open>The tags of a block\<close>

text \<open>
  Claim C8 as stated fails in two ways. Of two recognized blocks both are removed and
  the tags of the first are not returned. And the tags are read from the block with
  \<open>-\s+(\S+)\<close>, which takes all that is not white space: of the recognized block with
  the items \<open>- a\<close> and \<open>- b\<close> written without white space between them, the one tag
  \<open>a-\<close> is returned.
\<close>

theorem tags_in_order_counterexample:
  "extract_and_convert_tags ''tags:\<newline>- a\<newline>text\<newline>tags:\<newline>- b\<newline>'' = (''text\<newline>'', '':b:'')
   \<and> ''tags:\<newline>- a- b\<newline>'' = block_text ''\<newline>'' [('' '', ''a'', []), ('' '', ''b'', ''\<newline>'')]
   \<and> extract_and_convert_tags ''tags:\<newline>- a- b\<newline>'' = ([], '':a-:'')"
  by code_simp

text \<open>
  Claim C8, as it holds. A text with one recognized tags block, whose items are
  separated by white space: the tag extractor of either script returns the words of
  the items in their order, repeated ones as often as they occur, rendered in the
  format of the script, and the text without the block. For \<open>tags:\<close>, a newline,
  \<open>- a\<close>, a newline, \<open>- b\<close> and a newline the tags are \<open>a\<close> and \<open>b\<close> and the text
  is empty.
\<close>

theorem tags_in_order:
  "items \<noteq> [] \<Longrightarrow> \<forall>c \<in> set ws0. is_space c \<Longrightarrow> \<forall>it \<in> set items. item_ok it \<Longrightarrow>
   \<forall>it \<in> set (butlast items). trailing it \<noteq> [] \<Longrightarrow> block_ends items post \<Longrightarrow>
   \<forall>u \<in> set (suffixes pre). u \<noteq> [] \<longrightarrow> \<not> tags_block_here (u @ block_text ws0 items @ post) \<Longrightarrow>
   \<not> has_tags_block post \<Longrightarrow>
   extract_and_convert_tags (pre @ block_text ws0 items @ post)
     = (pre @ post, '':'' @ str_join '':'' (map tag_of items) @ '':'')
   \<and> extract_and_convert_tags_org (pre @ block_text ws0 items @ post)
     = (pre @ post,
        ''#+FILETAGS: '' @ str_join '' '' (map (\<lambda>tag. '':'' @ tag @ '':'') (map tag_of items)))"
proof -
  assume a: "items \<noteq> []" "\<forall>c \<in> set ws0. is_space c" "\<forall>it \<in> set items. item_ok it"
    "\<forall>it \<in> set (butlast items). trailing it \<noteq> []" "block_ends items post"
    "\<forall>u \<in> set (suffixes pre). u \<noteq> [] \<longrightarrow> \<not> tags_block_here (u @ block_text ws0 items @ post)"
    "\<not> has_tags_block post"
  from block_finditer[OF a(1,2,3,5,6,7)] obtain G where
    f: "finditer tags_block_pattern (pre @ block_text ws0 items @ post)
         = ([\<lparr>m_pre = pre, m_text = block_text ws0 items, m_groups = G\<rparr>], post)"
    by blast
  have t: "re_findall tag_pattern (block_text ws0 items) = map tag_of items"
    by (rule findall_block[OF a(2,3,4)])
  show ?thesis
    by (simp add: extract_via_finditer extract_org_via_finditer f t)
qed

theorem tags_in_order_witness:
  "[('' '', ''a'', ''\<newline>''), ('' '', ''b'', ''\<newline>'')] \<noteq> []
   \<and> list_all is_space ''\<newline>''
   \<and> list_all item_ok [('' '', ''a'', ''\<newline>''), ('' '', ''b'', ''\<newline>'')]
   \<and> list_all (\<lambda>it. trailing it \<noteq> []) (butlast [('' '', ''a'', ''\<newline>''), ('' '', ''b'', ''\<newline>'')])
   \<and> block_ends [('' '', ''a'', ''\<newline>''), ('' '', ''b'', ''\<newline>'')] []
   \<and> \<not> has_tags_block []
   \<and> extract_and_convert_tags ''tags:\<newline>- a\<newline>- b\<newline>'' = ([], '':a:b:'')
   \<and> extract_and_convert_tags_org ''tags:\<newline>- a\<newline>- b\<newline>'' = ([], ''#+FILETAGS: :a: :b:'')
   \<and> block_ends [('' '', ''b'', ''\<newline>''), ('' '', ''a'', ''  ''), ('' '', ''b'', ''\<newline>'')] ''---\<newline>text''
   \<and> extract_and_convert_tags ''---\<newline>tags: - b\<newline>- a  - b\<newline>---\<newline>text''
       = (''---\<newline>---\<newline>text'', '':b:a:b:'')"
proof -
  let ?i = "[('' '', ''a'', ''\<newline>''), ('' '', ''b'', ''\<newline>'')]"
  let ?j = "[('' '', ''b'', ''\<newline>''), ('' '', ''a'', ''  ''), ('' '', ''b'', ''\<newline>'')]"
  have h1: "?i \<noteq> []" "?j \<noteq> []" by simp_all
  have h2: "\<forall>c \<in> set ''\<newline>''. is_space c" "\<forall>c \<in> set '' ''. is_space c" by simp_all
  have h3: "\<forall>it \<in> set ?i. item_ok it" "\<forall>it \<in> set ?j. item_ok it" by code_simp+
  have h4: "\<forall>it \<in> set (butlast ?i). trailing it \<noteq> []"
    "\<forall>it \<in> set (butlast ?j). trailing it \<noteq> []" by code_simp+
  have h5: "block_ends ?i []" "block_ends ?j ''---\<newline>text''" by code_simp+
  have h6: "\<forall>u \<in> set (suffixes []). u \<noteq> [] \<longrightarrow> \<not> tags_block_here (u @ block_text ''\<newline>'' ?i @ [])"
    by simp
  have h6': "\<forall>u \<in> set (suffixes ''---\<newline>''). u \<noteq> [] \<longrightarrow>
               \<not> tags_block_here (u @ block_text '' '' ?j @ ''---\<newline>text'')"
    by code_simp
  have h7: "\<not> has_tags_block []" "\<not> has_tags_block ''---\<newline>text''" by code_simp+
  have b: "[] @ block_text ''\<newline>'' ?i @ [] = ''tags:\<newline>- a\<newline>- b\<newline>''"
    "''---\<newline>'' @ block_text '' '' ?j @ ''---\<newline>text'' = ''---\<newline>tags: - b\<newline>- a  - b\<newline>---\<newline>text''"
    by (simp_all add: block_text_def item_text_def)
  have t: "map tag_of ?i = [''a'', ''b'']" "map tag_of ?j = [''b'', ''a'', ''b'']"
    by (simp_all add: tag_of_def)
  from tags_in_order[OF h1(1) h2(1) h3(1) h4(1) h5(1) h6 h7(1)]
  have c1: "extract_and_convert_tags ''tags:\<newline>- a\<newline>- b\<newline>'' = ([], '':a:b:'')"
    and c2: "extract_and_convert_tags_org ''tags:\<newline>- a\<newline>- b\<newline>'' = ([], ''#+FILETAGS: :a: :b:'')"
    unfolding b t by simp_all
  from tags_in_order[OF h1(2) h2(2) h3(2) h4(2) h5(2) h6' h7(2)]
  have c3: "extract_and_convert_tags ''---\<newline>tags: - b\<newline>- a  - b\<newline>---\<newline>text''
       = (''---\<newline>---\<newline>text'', '':b:a:b:'')"
    unfolding b t by simp
  have l: "list_all is_space ''\<newline>''" "list_all item_ok ?i"
    "list_all (\<lambda>it. trailing it \<noteq> []) (butlast ?i)"
    using h2(1) h3(1) h4(1) by (simp_all only: list_all_iff)
  from h1 l h5 h7 c1 c2 c3 show ?thesis by blast
qed

section \<open>Reading the identifier back\<close>

text \<open>
  Claim C1 as stated fails for the inline-directive header of \<open>obsidian-to-org.py\<close>:
  it writes the identifier after \<open>#+id:\<close>, and the marker \<open>:ID:\<close> that
  \<open>build_existing_ids_map\<close> looks for does not occur in it. That script has no index.
\<close>

theorem inline_identifier_counterexample:
  "build_existing_ids_map
     [(''A.org'', generate_org_roam_header_inline ''out/A.org'' '':a:''
                    ''0b8a3c52-6f0e-4d7a-9a51-3c1d2e4f5a60'' @ ''Text.\<newline>'')] ''A''
   = None"
  by code_simp

text \<open>
  Claim C1, as it holds, for the property-drawer header of
  \<open>Obsidian-To-Roam/obsidian-to-roam.py\<close>. A file named \<open>*.md\<close> is converted with an
  identifier that is not empty and has no white space, as every UUID string. Then
  the output file exists, the index of the run maps the title of the note to the
  identifier, and scanning the output file in a later run records the same title
  with the same identifier, whatever the rendered body is; the entry is in the index
  that \<open>build_existing_ids_map\<close> returns unless a file scanned later has the same title.
\<close>

theorem drawer_identifier_recovered:
  "convert_file pandoc uid md_file out_dir rel st = Inr st' \<Longrightarrow>
   uid \<noteq> [] \<Longrightarrow> \<forall>c \<in> set uid. \<not> is_space c \<Longrightarrow> suffix ''.md'' md_file \<Longrightarrow>
   \<exists>content.
     files st' (org_file_of md_file out_dir rel) = Some content
     \<and> existing_ids st' (fst (splitext (basename md_file))) = Some uid
     \<and> (\<forall>ids. index_file (basename (org_file_of md_file out_dir rel), content) ids
              = ids(fst (splitext (basename md_file)) \<mapsto> uid))
     \<and> (\<forall>before after.
          (\<forall>fc \<in> set after. fst (splitext (fst fc)) \<noteq> fst (splitext (basename md_file))) \<longrightarrow>
          build_existing_ids_map
            (before @ [(basename (org_file_of md_file out_dir rel), content)] @ after)
            (fst (splitext (basename md_file))) = Some uid)"
proof -
  assume c: "convert_file pandoc uid md_file out_dir rel st = Inr st'"
    and u: "uid \<noteq> []" "\<forall>c \<in> set uid. \<not> is_space c" and md: "suffix ''.md'' md_file"
  let ?org = "org_file_of md_file out_dir rel"
  let ?name = "basename (fst (splitext md_file) @ ''.org'')"
  let ?title = "fst (splitext (basename md_file))"
  from convert_file_emits[OF c] obtain tags body where
    f: "files st' ?org = Some (fst (generate_org_roam_header ?org tags uid) @ body)"
    by blast
  let ?content = "fst (generate_org_roam_header ?org tags uid) @ body"
  have bn: "basename ?org = ?name"
    by (simp add: org_file_of_def basename_join basename_no_sep)
  have ix: "index_file (?name, ?content) ids = ids(?title \<mapsto> uid)" for ids
    using index_file_header[OF u org_title(2)[OF md], of ?org tags body ids]
    by (simp add: org_title(1)[OF md])
  have e: "existing_ids st' ?title = Some uid"
    using convert_file_ids[OF c] by simp
  have b: "build_existing_ids_map (before @ [(?name, ?content)] @ after) ?title = Some uid"
    if "\<forall>fc \<in> set after. fst (splitext (fst fc)) \<noteq> ?title" for before after
    using that by (simp add: build_existing_ids_map_def fold_index_other ix)
  from f e ix b show ?thesis
    unfolding bn by blast
qed

theorem drawer_identifier_recovered_witness:
  "convert_file (\<lambda>c. Some c) ''0b8a3c52-6f0e-4d7a-9a51-3c1d2e4f5a60'' ''notes/A.md'' ''out/'' ''.''
       \<lparr>files = [''notes/A.md'' \<mapsto> ''Text.''], existing_ids = Map.empty\<rparr>
     = Inr (projr (convert_file (\<lambda>c. Some c) ''0b8a3c52-6f0e-4d7a-9a51-3c1d2e4f5a60''
              ''notes/A.md'' ''out/'' ''.''
              \<lparr>files = [''notes/A.md'' \<mapsto> ''Text.''], existing_ids = Map.empty\<rparr>))
   \<and> ''0b8a3c52-6f0e-4d7a-9a51-3c1d2e4f5a60'' \<noteq> []
   \<and> list_all (\<lambda>c. \<not> is_space c) ''0b8a3c52-6f0e-4d7a-9a51-3c1d2e4f5a60''
   \<and> suffix ''.md'' ''notes/A.md''
   \<and> (\<exists>content.
        files (projr (convert_file (\<lambda>c. Some c) ''0b8a3c52-6f0e-4d7a-9a51-3c1d2e4f5a60''
              ''notes/A.md'' ''out/'' ''.''
              \<lparr>files = [''notes/A.md'' \<mapsto> ''Text.''], existing_ids = Map.empty\<rparr>))
          ''out/./A.org'' = Some content
        \<and> build_existing_ids_map [(''A.org'', content)] ''A''
            = Some ''0b8a3c52-6f0e-4d7a-9a51-3c1d2e4f5a60'')"
proof -
  let ?u = "''0b8a3c52-6f0e-4d7a-9a51-3c1d2e4f5a60''"
  let ?st = "\<lparr>files = [''notes/A.md'' \<mapsto> ''Text.''], existing_ids = Map.empty\<rparr>"
  let ?r = "convert_file (\<lambda>c. Some c) ?u ''notes/A.md'' ''out/'' ''.'' ?st"
  have "isl ?r = False" by code_simp
  then have h1: "?r = Inr (projr ?r)" by (cases ?r) auto
  have h2: "?u \<noteq> []" by simp
  have h3: "\<forall>c \<in> set ?u. \<not> is_space c" by code_simp
  have h4: "suffix ''.md'' ''notes/A.md''" by code_simp
  have o: "org_file_of ''notes/A.md'' ''out/'' ''.'' = ''out/./A.org''" by code_simp
  have n: "basename ''out/./A.org'' = ''A.org''" by code_simp
  have t: "fst (splitext (basename ''notes/A.md'')) = ''A''" by code_simp
  from drawer_identifier_recovered[OF h1 h2 h3 h4] obtain content where
    c: "files (projr ?r) ''out/./A.org'' = Some content"
    and b: "\<forall>before after.
          (\<forall>fc \<in> set after. fst (splitext (fst fc)) \<noteq> ''A'') \<longrightarrow>
          build_existing_ids_map (before @ [(''A.org'', content)] @ after) ''A'' = Some ?u"
    unfolding o n t by blast
  from b[rule_format, of "[]" "[]"] have "build_existing_ids_map [(''A.org'', content)] ''A'' = Some ?u"
    by simp
  moreover have "list_all (\<lambda>c. \<not> is_space c) ?u"
    using h3 by (simp only: list_all_iff)
  ultimately show ?thesis using c h1 h2 h4 by blast
qed

section \<open>The index within a run\<close>

text \<open>
  Claim C2, as it holds. The index is a map, so a title has at most one identifier at
  any time. \<open>convert_file\<close> assigns \<open>existing_ids[title] = unique_id\<close> whatever the
  index held for the title: after a run the index is the initial one overwritten, in
  the order of the conversions, with the identifier of every converted file, so the
  last file converted under a title decides its entry. A file converted in the course
  of the run has its links rewritten with the index of that moment, which is the
  initial index overwritten with the identifiers of the files converted before it: the
  text that goes to pandoc is \<open>convert_links_and_images\<close> of the file's text, without
  its tags block and header, under that index; what pandoc makes of it is written
  after the header; and a link whose target is in that index is rewritten to the
  identifier the index has for it then. The scan of the output directory assigns in
  the same way, file after file.
\<close>

theorem index_last_writer_wins:
  "convert_files pandoc out_dir jobs st = Inr st' \<Longrightarrow>
   existing_ids st' =
     fold (\<lambda>(uuid4, md_file, relative_path) ids. ids(fst (splitext (basename md_file)) \<mapsto> uuid4))
       jobs (existing_ids st)
   \<and> (jobs = before @ (uuid4, md_file, relative_path) # after \<longrightarrow>
       (\<exists>st1 st2 content.
          convert_files pandoc out_dir before st = Inr st1
          \<and> convert_file pandoc uuid4 md_file out_dir relative_path st1 = Inr st2
          \<and> convert_files pandoc out_dir after st2 = Inr st'
          \<and> existing_ids st1 =
              fold (\<lambda>(uuid4, md_file, relative_path) ids.
                      ids(fst (splitext (basename md_file)) \<mapsto> uuid4))
                before (existing_ids st)
          \<and> existing_ids st2 = (existing_ids st1)(fst (splitext (basename md_file)) \<mapsto> uuid4)
          \<and> files st1 md_file = Some content
          \<and> (\<forall>r. pandoc (convert_links_and_images
                     (remove_md_header (fst (extract_and_convert_tags content)))
                     (existing_ids st1)) = Some r \<longrightarrow>
                files st2 (org_file_of md_file out_dir relative_path) =
                  Some (fst (generate_org_roam_header (org_file_of md_file out_dir relative_path)
                               (snd (extract_and_convert_tags content)) uuid4) @ r))
          \<and> (\<forall>m t u. m_groups m 1 = Some t \<and> existing_ids st1 t = Some u \<longrightarrow>
                transform_link (existing_ids st1) m =
                  ''[[id:'' @ u @ sub_part (m_groups m 2) @ '']['' @
                    (if truthy (m_groups m 3) then fmt (m_groups m 3) else t) @ '']]'')))
   \<and> build_existing_ids_map (walk @ [fc]) = index_file fc (build_existing_ids_map walk)"
proof (intro conjI impI)
  assume run: "convert_files pandoc out_dir jobs st = Inr st'"
  then show "existing_ids st' =
     fold (\<lambda>(uuid4, md_file, relative_path) ids. ids(fst (splitext (basename md_file)) \<mapsto> uuid4))
       jobs (existing_ids st)"
    by (rule convert_files_ids)
next
  assume run: "convert_files pandoc out_dir jobs st = Inr st'"
    and jobs: "jobs = before @ (uuid4, md_file, relative_path) # after"
  from run jobs obtain st1 where
    s1: "convert_files pandoc out_dir before st = Inr st1"
    and s1': "convert_files pandoc out_dir ((uuid4, md_file, relative_path) # after) st1 = Inr st'"
    by (auto simp: convert_files_append split: sum.splits)
  from s1' obtain st2 where
    s2: "convert_file pandoc uuid4 md_file out_dir relative_path st1 = Inr st2"
    and s3: "convert_files pandoc out_dir after st2 = Inr st'"
    by (auto split: sum.splits)
  from convert_file_reads[OF s2] obtain content where c: "files st1 md_file = Some content"
    by blast
  show "\<exists>st1 st2 content.
          convert_files pandoc out_dir before st = Inr st1
          \<and> convert_file pandoc uuid4 md_file out_dir relative_path st1 = Inr st2
          \<and> convert_files pandoc out_dir after st2 = Inr st'
          \<and> existing_ids st1 =
              fold (\<lambda>(uuid4, md_file, relative_path) ids.
                      ids(fst (splitext (basename md_file)) \<mapsto> uuid4))
                before (existing_ids st)
          \<and> existing_ids st2 = (existing_ids st1)(fst (splitext (basename md_file)) \<mapsto> uuid4)
          \<and> files st1 md_file = Some content
          \<and> (\<forall>r. pandoc (convert_links_and_images
                     (remove_md_header (fst (extract_and_convert_tags content)))
                     (existing_ids st1)) = Some r \<longrightarrow>
                files st2 (org_file_of md_file out_dir relative_path) =
                  Some (fst (generate_org_roam_header (org_file_of md_file out_dir relative_path)
                               (snd (extract_and_convert_tags content)) uuid4) @ r))
          \<and> (\<forall>m t u. m_groups m 1 = Some t \<and> existing_ids st1 t = Some u \<longrightarrow>
                transform_link (existing_ids st1) m =
                  ''[[id:'' @ u @ sub_part (m_groups m 2) @ '']['' @
                    (if truthy (m_groups m 3) then fmt (m_groups m 3) else t) @ '']]'')"
  proof (intro exI conjI allI impI)
    show "convert_files pandoc out_dir before st = Inr st1" by (rule s1)
    show "convert_file pandoc uuid4 md_file out_dir relative_path st1 = Inr st2" by (rule s2)
    show "convert_files pandoc out_dir after st2 = Inr st'" by (rule s3)
    show "existing_ids st1 =
              fold (\<lambda>(uuid4, md_file, relative_path) ids.
                      ids(fst (splitext (basename md_file)) \<mapsto> uuid4))
                before (existing_ids st)"
      by (rule convert_files_ids[OF s1])
    show "existing_ids st2 = (existing_ids st1)(fst (splitext (basename md_file)) \<mapsto> uuid4)"
      by (rule convert_file_ids[OF s2])
    show "files st1 md_file = Some content" by (rule c)
  next
    fix r
    assume "pandoc (convert_links_and_images
                     (remove_md_header (fst (extract_and_convert_tags content)))
                     (existing_ids st1)) = Some r"
    then show "files st2 (org_file_of md_file out_dir relative_path) =
                  Some (fst (generate_org_roam_header (org_file_of md_file out_dir relative_path)
                               (snd (extract_and_convert_tags content)) uuid4) @ r)"
      by (rule convert_file_links[OF s2 c])
  next
    fix m :: rematch and t u
    assume "m_groups m 1 = Some t \<and> existing_ids st1 t = Some u"
    then show "transform_link (existing_ids st1) m =
                  ''[[id:'' @ u @ sub_part (m_groups m 2) @ '']['' @
                    (if truthy (m_groups m 3) then fmt (m_groups m 3) else t) @ '']]''"
      by (simp add: transform_link_resolved)
  qed
next
  show "build_existing_ids_map (walk @ [fc]) = index_file fc (build_existing_ids_map walk)"
    by (simp add: build_existing_ids_map_def)
qed

theorem index_last_writer_wins_witness:
  "existing_ids
     (projr (convert_files (\<lambda>c. Some c) ''out/''
        [(''0b8a3c52-6f0e-4d7a-9a51-3c1d2e4f5a60'', ''notes/A.md'', ''.''),
         (''3d2c1b0a-9f8e-4d7c-a6b5-4c3d2e1f0a9b'', ''notes/B.md'', ''.''),
         (''7e1f9d24-08b3-4c6e-b2a7-5d4c3b2a1f09'', ''notes/sub/A.md'', ''sub''),
         (''5a4b3c2d-1e0f-4a9b-8c7d-6e5f4a3b2c1d'', ''notes/C.md'', ''.'')]
        \<lparr>files = [''notes/A.md'' \<mapsto> ''one'', ''notes/B.md'' \<mapsto> ''See [[A]].'',
                  ''notes/sub/A.md'' \<mapsto> ''two'', ''notes/C.md'' \<mapsto> ''See [[A]].''],
         existing_ids = Map.empty\<rparr>)) ''A''
   = Some ''7e1f9d24-08b3-4c6e-b2a7-5d4c3b2a1f09''
   \<and> files
     (projr (convert_files (\<lambda>c. Some c) ''out/''
        [(''0b8a3c52-6f0e-4d7a-9a51-3c1d2e4f5a60'', ''notes/A.md'', ''.''),
         (''3d2c1b0a-9f8e-4d7c-a6b5-4c3d2e1f0a9b'', ''notes/B.md'', ''.'')]
        \<lparr>files = [''notes/A.md'' \<mapsto> ''one'', ''notes/B.md'' \<mapsto> ''See [[A]].'',
                  ''notes/sub/A.md'' \<mapsto> ''two'', ''notes/C.md'' \<mapsto> ''See [[A]].''],
         existing_ids = Map.empty\<rparr>)) ''out/./B.org''
   = Some ('':PROPERTIES:\<newline>:ID: 3d2c1b0a-9f8e-4d7c-a6b5-4c3d2e1f0a9b\<newline>:END:\<newline>''
           @ ''#+title: B\<newline>#+ROAM_TAGS: \<newline>\<newline>''
           @ ''See [[id:0b8a3c52-6f0e-4d7a-9a51-3c1d2e4f5a60][A]].'')
   \<and> files
     (projr (convert_files (\<lambda>c. Some c) ''out/''
        [(''0b8a3c52-6f0e-4d7a-9a51-3c1d2e4f5a60'', ''notes/A.md'', ''.''),
         (''3d2c1b0a-9f8e-4d7c-a6b5-4c3d2e1f0a9b'', ''notes/B.md'', ''.''),
         (''7e1f9d24-08b3-4c6e-b2a7-5d4c3b2a1f09'', ''notes/sub/A.md'', ''sub''),
         (''5a4b3c2d-1e0f-4a9b-8c7d-6e5f4a3b2c1d'', ''notes/C.md'', ''.'')]
        \<lparr>files = [''notes/A.md'' \<mapsto> ''one'', ''notes/B.md'' \<mapsto> ''See [[A]].'',
                  ''notes/sub/A.md'' \<mapsto> ''two'', ''notes/C.md'' \<mapsto> ''See [[A]].''],
         existing_ids = Map.empty\<rparr>)) ''out/./C.org''
   = Some ('':PROPERTIES:\<newline>:ID: 5a4b3c2d-1e0f-4a9b-8c7d-6e5f4a3b2c1d\<newline>:END:\<newline>''
           @ ''#+title: C\<newline>#+ROAM_TAGS: \<newline>\<newline>''
           @ ''See [[id:7e1f9d24-08b3-4c6e-b2a7-5d4c3b2a1f09][A]].'')"
proof -
  let ?st = "\<lparr>files = [''notes/A.md'' \<mapsto> ''one'', ''notes/B.md'' \<mapsto> ''See [[A]].'',
                  ''notes/sub/A.md'' \<mapsto> ''two'', ''notes/C.md'' \<mapsto> ''See [[A]].''],
         existing_ids = Map.empty\<rparr>"
  let ?a = "(''0b8a3c52-6f0e-4d7a-9a51-3c1d2e4f5a60'', ''notes/A.md'', ''.'')"
  let ?b = "(''3d2c1b0a-9f8e-4d7c-a6b5-4c3d2e1f0a9b'', ''notes/B.md'', ''.'')"
  let ?a' = "(''7e1f9d24-08b3-4c6e-b2a7-5d4c3b2a1f09'', ''notes/sub/A.md'', ''sub'')"
  let ?c = "(''5a4b3c2d-1e0f-4a9b-8c7d-6e5f4a3b2c1d'', ''notes/C.md'', ''.'')"
  let ?P = "\<lambda>c :: string. Some c"
  let ?run = "convert_files ?P ''out/'' [?a, ?b, ?a', ?c] ?st"
  have ok: "isl ?run = False"
    by code_simp
  then obtain st' where s: "?run = Inr st'"
    by (cases ?run) auto
  have ta: "fst (splitext (basename ''notes/A.md'')) = ''A''" by code_simp
  have tb: "fst (splitext (basename ''notes/B.md'')) = ''B''" by code_simp
  have ta': "fst (splitext (basename ''notes/sub/A.md'')) = ''A''" by code_simp
  have tc: "fst (splitext (basename ''notes/C.md'')) = ''C''" by code_simp
  have ob: "org_file_of ''notes/B.md'' ''out/'' ''.'' = ''out/./B.org''" by code_simp
  have oc: "org_file_of ''notes/C.md'' ''out/'' ''.'' = ''out/./C.org''" by code_simp
  have tx: "extract_and_convert_tags ''See [[A]].'' = (''See [[A]].'', [])" by code_simp
  have hd: "remove_md_header ''See [[A]].'' = ''See [[A]].''" by code_simp
  have l1: "convert_links_and_images ''See [[A]].''
              [''A'' \<mapsto> ''0b8a3c52-6f0e-4d7a-9a51-3c1d2e4f5a60'']
            = ''See [[id:0b8a3c52-6f0e-4d7a-9a51-3c1d2e4f5a60][A]].''"
    by code_simp
  have l2: "convert_links_and_images ''See [[A]].''
              [''A'' \<mapsto> ''7e1f9d24-08b3-4c6e-b2a7-5d4c3b2a1f09'',
               ''B'' \<mapsto> ''3d2c1b0a-9f8e-4d7c-a6b5-4c3d2e1f0a9b'']
            = ''See [[id:7e1f9d24-08b3-4c6e-b2a7-5d4c3b2a1f09][A]].''"
    by code_simp
  have e: "existing_ids st' ''A'' = Some ''7e1f9d24-08b3-4c6e-b2a7-5d4c3b2a1f09''"
    using index_last_writer_wins[OF s] by (simp add: ta tb ta' tc)
  have j1: "[?a, ?b, ?a', ?c] = [?a] @ ?b # [?a', ?c]" by simp
  have j2: "[?a, ?b, ?a', ?c] = [?a, ?b, ?a'] @ ?c # []" by simp
  from index_last_writer_wins[where before = "[?a]"
      and ?uuid4.0 = "''3d2c1b0a-9f8e-4d7c-a6b5-4c3d2e1f0a9b''" and md_file = "''notes/B.md''"
      and relative_path = "''.''" and after = "[?a', ?c]", OF s,
      THEN conjunct2, THEN conjunct1, THEN mp, OF j1]
  obtain s1 s2 content where
    b1: "convert_files ?P ''out/'' [?a] ?st = Inr s1"
    and b2: "convert_file ?P ''3d2c1b0a-9f8e-4d7c-a6b5-4c3d2e1f0a9b'' ''notes/B.md'' ''out/'' ''.'' s1 = Inr s2"
    and bi: "existing_ids s1 =
              fold (\<lambda>(uuid4, md_file, relative_path) ids.
                      ids(fst (splitext (basename md_file)) \<mapsto> uuid4))
                [?a] (existing_ids ?st)"
    and bc: "files s1 ''notes/B.md'' = Some content"
    and bf: "\<forall>r. ?P (convert_links_and_images
                     (remove_md_header (fst (extract_and_convert_tags content)))
                     (existing_ids s1)) = Some r \<longrightarrow>
                files s2 (org_file_of ''notes/B.md'' ''out/'' ''.'') =
                  Some (fst (generate_org_roam_header (org_file_of ''notes/B.md'' ''out/'' ''.'')
                               (snd (extract_and_convert_tags content))
                               ''3d2c1b0a-9f8e-4d7c-a6b5-4c3d2e1f0a9b'') @ r)"
    by blast
  have "files (projr (convert_files ?P ''out/'' [?a] ?st)) ''notes/B.md'' = Some ''See [[A]].''"
    by code_simp
  with b1 bc have cb: "content = ''See [[A]].''" by simp
  from bi have bi': "existing_ids s1 = [''A'' \<mapsto> ''0b8a3c52-6f0e-4d7a-9a51-3c1d2e4f5a60'']"
    by (simp add: ta)
  from b1 b2 have r2: "convert_files ?P ''out/'' [?a, ?b] ?st = Inr s2"
    by (auto split: sum.splits)
  from bf have "files s2 (org_file_of ''notes/B.md'' ''out/'' ''.'') =
                  Some (fst (generate_org_roam_header (org_file_of ''notes/B.md'' ''out/'' ''.'')
                               (snd (extract_and_convert_tags content))
                               ''3d2c1b0a-9f8e-4d7c-a6b5-4c3d2e1f0a9b'')
                        @ convert_links_and_images
                            (remove_md_header (fst (extract_and_convert_tags content)))
                            (existing_ids s1))"
    by simp
  then have fb: "files s2 ''out/./B.org''
     = Some ('':PROPERTIES:\<newline>:ID: 3d2c1b0a-9f8e-4d7c-a6b5-4c3d2e1f0a9b\<newline>:END:\<newline>''
           @ ''#+title: B\<newline>#+ROAM_TAGS: \<newline>\<newline>''
           @ ''See [[id:0b8a3c52-6f0e-4d7a-9a51-3c1d2e4f5a60][A]].'')"
    unfolding cb bi' ob tx fst_conv snd_conv hd l1
    by (simp add: generate_org_roam_header_def basename_def splitext_def)
  from index_last_writer_wins[where before = "[?a, ?b, ?a']"
      and ?uuid4.0 = "''5a4b3c2d-1e0f-4a9b-8c7d-6e5f4a3b2c1d''" and md_file = "''notes/C.md''"
      and relative_path = "''.''" and after = "[]", OF s,
      THEN conjunct2, THEN conjunct1, THEN mp, OF j2]
  obtain s3 s4 content' where
    c1: "convert_files ?P ''out/'' [?a, ?b, ?a'] ?st = Inr s3"
    and c3: "convert_files ?P ''out/'' [] s4 = Inr st'"
    and ci: "existing_ids s3 =
              fold (\<lambda>(uuid4, md_file, relative_path) ids.
                      ids(fst (splitext (basename md_file)) \<mapsto> uuid4))
                [?a, ?b, ?a'] (existing_ids ?st)"
    and cc: "files s3 ''notes/C.md'' = Some content'"
    and cf: "\<forall>r. ?P (convert_links_and_images
                     (remove_md_header (fst (extract_and_convert_tags content')))
                     (existing_ids s3)) = Some r \<longrightarrow>
                files s4 (org_file_of ''notes/C.md'' ''out/'' ''.'') =
                  Some (fst (generate_org_roam_header (org_file_of ''notes/C.md'' ''out/'' ''.'')
                               (snd (extract_and_convert_tags content'))
                               ''5a4b3c2d-1e0f-4a9b-8c7d-6e5f4a3b2c1d'') @ r)"
    by blast
  from c3 have c3': "s4 = st'" by simp
  have "files (projr (convert_files ?P ''out/'' [?a, ?b, ?a'] ?st)) ''notes/C.md'' = Some ''See [[A]].''"
    by code_simp
  with c1 cc have cc': "content' = ''See [[A]].''" by simp
  from ci have ci': "existing_ids s3 = [''A'' \<mapsto> ''7e1f9d24-08b3-4c6e-b2a7-5d4c3b2a1f09'',
               ''B'' \<mapsto> ''3d2c1b0a-9f8e-4d7c-a6b5-4c3d2e1f0a9b'']"
    by (simp add: ta tb ta' fun_upd_twist)
  from cf have "files s4 (org_file_of ''notes/C.md'' ''out/'' ''.'') =
                  Some (fst (generate_org_roam_header (org_file_of ''notes/C.md'' ''out/'' ''.'')
                               (snd (extract_and_convert_tags content'))
                               ''5a4b3c2d-1e0f-4a9b-8c7d-6e5f4a3b2c1d'')
                        @ convert_links_and_images
                            (remove_md_header (fst (extract_and_convert_tags content')))
                            (existing_ids s3))"
    by simp
  then have fc: "files st' ''out/./C.org''
     = Some ('':PROPERTIES:\<newline>:ID: 5a4b3c2d-1e0f-4a9b-8c7d-6e5f4a3b2c1d\<newline>:END:\<newline>''
           @ ''#+title: C\<newline>#+ROAM_TAGS: \<newline>\<newline>''
           @ ''See [[id:7e1f9d24-08b3-4c6e-b2a7-5d4c3b2a1f09][A]].'')"
    unfolding cc' ci' oc tx fst_conv snd_conv hd l2 c3'
    by (simp add: generate_org_roam_header_def basename_def splitext_def)
  from e fb fc show ?thesis
    by (simp only: s r2 sum.sel simp_thms)
qed

text \<open>
  Claim C2 as stated fails: the title \<open>A\<close> has an identifier from the scan of the
  output directory, and converting \<open>A.md\<close> replaces it.
\<close>

theorem first_writer_counterexample:
  "existing_ids
     (projr (convert_file (\<lambda>c. Some c) ''7e1f9d24-08b3-4c6e-b2a7-5d4c3b2a1f09''
        ''notes/A.md'' ''out/'' ''.''
        \<lparr>files = [''notes/A.md'' \<mapsto> ''one''],
         existing_ids = [''A'' \<mapsto> ''0b8a3c52-6f0e-4d7a-9a51-3c1d2e4f5a60'']\<rparr>)) ''A''
   \<noteq> Some ''0b8a3c52-6f0e-4d7a-9a51-3c1d2e4f5a60''"
  by code_simp

end
